theory Spec2Isabelle
  imports Main "HOL-Library.Word"
begin

unbundle bit_operations_syntax

section \<open>Machine types\<close>

type_synonym u8 = "8 word"
type_synonym u32 = "32 word"

text \<open>A signed 32-bit value (\<open>int32_t\<close>) is kept as its two's-complement bit pattern; \<open>sint\<close>
  reads it.\<close>

type_synonym i32 = "32 word"

datatype error = AssertionFailed | IndexOutOfRange

section \<open>int\_math\_utils.h\<close>

text \<open>Modelled from the spec: \<open>int_math::num_bits\<close> and \<open>int_math::int_math_max\<close> are declared in
  \<open>int_math_utils.h\<close>, which is not among the sources.  The spec (section 3) gives
  \<open>nb(x)\<close> as the position of the highest set bit plus one, with \<open>nb(0) = 0\<close>.\<close>

fun num_bits_nat :: "nat \<Rightarrow> nat" where
  "num_bits_nat n = (if n = 0 then 0 else Suc (num_bits_nat (n div 2)))"

declare num_bits_nat.simps [simp del]

definition num_bits :: "u32 \<Rightarrow> int" where
  "num_bits x = int (num_bits_nat (unat x))"

definition int_math_max :: "int \<Rightarrow> int \<Rightarrow> int" where
  "int_math_max a b = (if a < b then b else a)"

section \<open>bit\_stream.h\<close>

text \<open>Modelled from the spec: classes \<open>BitStream\<close> and \<open>ReverseBitStream\<close> are declared in
  \<open>bit_stream.h\<close>, which is not among the sources.  The spec (sections 4.1 and 6) fixes
  their contract: a field of \<open>nbits\<close> bits is appended least significant bit first,
  fields are concatenated in call order, the first bit written is bit 0 of the first
  byte, \<open>Flush\<close> pads the last partial byte with zeros, and the reader's \<open>Read\<close> returns
  false when the remaining buffer cannot supply the bits asked for.  The state of
  the sink is the sequence of bits written so far; the state of the source is the
  sequence of bits not yet read.\<close>

type_synonym BitStream = "bool list"

definition BitStream_Write :: "int \<Rightarrow> u32 \<Rightarrow> BitStream \<Rightarrow> BitStream" where
  "BitStream_Write num_bits_in bits_in bs = bs @ map (bit bits_in) [0..<nat num_bits_in]"

definition BitStream_Flush :: "BitStream \<Rightarrow> BitStream" where
  "BitStream_Flush bs = bs @ replicate ((8 - length bs mod 8) mod 8) False"

fun pack_bytes :: "bool list \<Rightarrow> u8 list" where
  "pack_bytes (b0 # b1 # b2 # b3 # b4 # b5 # b6 # b7 # bs) =
     horner_sum of_bool 2 [b0, b1, b2, b3, b4, b5, b6, b7] # pack_bytes bs"
| "pack_bytes _ = []"

definition BitStream_Code :: "BitStream \<Rightarrow> u8 list" where
  "BitStream_Code bs = pack_bytes bs"

type_synonym ReverseBitStream = "bool list"

definition ReverseBitStream_new :: "u8 list \<Rightarrow> ReverseBitStream" where
  "ReverseBitStream_new code = concat (map (\<lambda>b. map (bit b) [0..<8]) code)"

definition ReverseBitStream_Read :: "int \<Rightarrow> ReverseBitStream \<Rightarrow> (u32 \<times> ReverseBitStream) option" where
  "ReverseBitStream_Read nbits r =
     (if nat nbits \<le> length r
      then Some (horner_sum of_bool 2 (take (nat nbits) r), drop (nat nbits) r)
      else None)"

section \<open>class UintStream\<close>

record UintStream =
  buffer :: "u32 list"
  most_recent_num_bits :: int
  bit_stream :: BitStream
  started :: bool
  flushed :: bool
  num_pending_zeros :: u32

definition UintStream_new :: UintStream where
  "UintStream_new = \<lparr> buffer = [], most_recent_num_bits = 0, bit_stream = [],
     started = False, flushed = False, num_pending_zeros = 0 \<rparr>"

definition FlushPendingZeros :: "UintStream \<Rightarrow> error + UintStream" where
  "FlushPendingZeros s =
     (if \<not> 1 \<le> num_pending_zeros s then Inl AssertionFailed
      else
        let num_bits_written = num_bits (num_pending_zeros s) - 1;
            bs1 = BitStream_Write (num_bits_written + 1)
                    (push_bit (nat num_bits_written) 1) (bit_stream s);
            bs2 = BitStream_Write num_bits_written
                    ((num_pending_zeros s) AND (push_bit (nat num_bits_written) 1 - 1)) bs1
        in Inr (s\<lparr> bit_stream := bs2, num_pending_zeros := 0 \<rparr>))"

subsection \<open>ComputeNumBits\<close>

text \<open>The first loop walks the buffer forwards, carrying \<open>prev_num_bits\<close>; the second walks
  the result through a reverse iterator, carrying \<open>next_num_bits\<close>.\<close>

fun forward_pass :: "int \<Rightarrow> u32 list \<Rightarrow> int list" where
  "forward_pass prev_num_bits [] = []"
| "forward_pass prev_num_bits (v # vs) =
     int_math_max (num_bits v) (prev_num_bits - 1)
       # forward_pass (int_math_max (num_bits v) (prev_num_bits - 1)) vs"

fun backward_pass :: "int \<Rightarrow> int list \<Rightarrow> int list" where
  "backward_pass next_num_bits [] = []"
| "backward_pass next_num_bits (this_num_bits # ts) =
     int_math_max this_num_bits (next_num_bits - 1)
       # backward_pass (int_math_max this_num_bits (next_num_bits - 1)) ts"

definition ComputeNumBits :: "UintStream \<Rightarrow> int list" where
  "ComputeNumBits s =
     rev (backward_pass 0 (rev (forward_pass (most_recent_num_bits s) (buffer s))))"

subsection \<open>WriteCode\<close>

definition top_bit_redundant :: "int \<Rightarrow> int \<Rightarrow> int \<Rightarrow> bool" where
  "top_bit_redundant prev_num_bits cur_num_bits next_num_bits \<longleftrightarrow>
     prev_num_bits \<le> cur_num_bits \<and> next_num_bits \<le> cur_num_bits \<and> cur_num_bits > 0"

definition WriteCode :: "int \<Rightarrow> int \<Rightarrow> int \<Rightarrow> u32 \<Rightarrow> UintStream \<Rightarrow> error + UintStream" where
  "WriteCode prev_num_bits cur_num_bits next_num_bits i s =
     (if cur_num_bits = 0 then Inr (s\<lparr> num_pending_zeros := num_pending_zeros s + 1 \<rparr>)
      else
        case (if num_pending_zeros s \<noteq> 0 then FlushPendingZeros s else Inr s) of
          Inl e \<Rightarrow> Inl e
        | Inr s1 \<Rightarrow>
            if \<not> num_bits i \<le> cur_num_bits then Inl AssertionFailed
            else
              let delta_num_bits = next_num_bits - cur_num_bits in
              (case (if delta_num_bits = 1 then Inr (BitStream_Write 2 3 (bit_stream s1))
                     else if delta_num_bits = - 1 then Inr (BitStream_Write 2 1 (bit_stream s1))
                     else if \<not> delta_num_bits = 0 then Inl AssertionFailed
                     else Inr (BitStream_Write 1 0 (bit_stream s1))) of
                 Inl e \<Rightarrow> Inl e
               | Inr bs2 \<Rightarrow>
                   if \<not> top_bit_redundant prev_num_bits cur_num_bits next_num_bits
                   then Inr (s1\<lparr> bit_stream := BitStream_Write cur_num_bits i bs2 \<rparr>)
                   else if \<not> ((i AND (push_bit (nat (cur_num_bits - 1)) 1)) \<noteq> 0)
                   then Inl AssertionFailed
                   else Inr (s1\<lparr> bit_stream :=
                          BitStream_Write (cur_num_bits - 1)
                            (i XOR (push_bit (nat (cur_num_bits - 1)) 1)) bs2 \<rparr>)))"

subsection \<open>FlushSome\<close>

text \<open>The loop of \<open>FlushSome\<close>: \<open>nexts\<close> holds \<open>num_bits[1]\<close>, ..., \<open>num_bits[num_to_flush]\<close> and
  \<open>vs\<close> the first \<open>num_to_flush\<close> elements of the buffer.\<close>

fun FlushSome_loop :: "int \<Rightarrow> int \<Rightarrow> int list \<Rightarrow> u32 list \<Rightarrow> UintStream \<Rightarrow> error + UintStream" where
  "FlushSome_loop prev_num_bits cur_num_bits (next_num_bits # nexts) (v # vs) s =
     (case WriteCode prev_num_bits cur_num_bits next_num_bits v s of
        Inl e \<Rightarrow> Inl e
      | Inr s' \<Rightarrow> FlushSome_loop cur_num_bits next_num_bits nexts vs s')"
| "FlushSome_loop prev_num_bits cur_num_bits _ _ s = Inr s"

definition write_prelude :: "int \<Rightarrow> BitStream \<Rightarrow> BitStream" where
  "write_prelude first_num_bits bs =
     (let bs1 = BitStream_Write 5 (if first_num_bits = 32 then 31 else word_of_int first_num_bits) bs
      in if first_num_bits \<ge> 31 then BitStream_Write 1 (word_of_int (first_num_bits - 31)) bs1
         else bs1)"

definition FlushSome :: "nat \<Rightarrow> UintStream \<Rightarrow> error + UintStream" where
  "FlushSome num_to_flush s =
     (let size = length (buffer s) in
      if \<not> num_to_flush \<le> size then Inl AssertionFailed
      else if size = 0 then Inr s
      else if num_to_flush = 0 then Inl IndexOutOfRange
      else
        let nbs0 = ComputeNumBits s;
            nbs = (if num_to_flush = size then nbs0 @ [last nbs0] else nbs0);
            s1 = (if \<not> started s
                  then s\<lparr> bit_stream := write_prelude (nbs ! 0) (bit_stream s),
                          started := True,
                          most_recent_num_bits := nbs ! 0 \<rparr>
                  else s)
        in case FlushSome_loop (most_recent_num_bits s1) (nbs ! 0)
                  (take num_to_flush (tl nbs)) (take num_to_flush (buffer s)) s1 of
             Inl e \<Rightarrow> Inl e
           | Inr s2 \<Rightarrow>
               Inr (s2\<lparr> most_recent_num_bits := nbs ! (num_to_flush - 1),
                        buffer := drop num_to_flush (buffer s) \<rparr>))"

subsection \<open>Write, Flush, Code\<close>

definition UintStream_Write :: "u32 \<Rightarrow> UintStream \<Rightarrow> error + UintStream" where
  "UintStream_Write v s =
     (let s1 = s\<lparr> buffer := buffer s @ [v] \<rparr>
      in if length (buffer s1) \<ge> 64 then FlushSome 32 s1 else Inr s1)"

definition UintStream_Flush :: "UintStream \<Rightarrow> error + UintStream" where
  "UintStream_Flush s =
     (if flushed s then Inl AssertionFailed
      else if buffer s = [] then Inl AssertionFailed
      else
        case FlushSome (length (buffer s)) (s\<lparr> flushed := True \<rparr>) of
          Inl e \<Rightarrow> Inl e
        | Inr s1 \<Rightarrow>
            (case (if num_pending_zeros s1 \<noteq> 0 then FlushPendingZeros s1 else Inr s1) of
               Inl e \<Rightarrow> Inl e
             | Inr s2 \<Rightarrow> Inr (s2\<lparr> bit_stream := BitStream_Flush (bit_stream s2) \<rparr>)))"

definition UintStream_Code :: "UintStream \<Rightarrow> error + u8 list" where
  "UintStream_Code s = (if \<not> flushed s then Inl AssertionFailed else Inr (BitStream_Code (bit_stream s)))"

text \<open>The documented use of the class: one or more \<open>Write\<close>s, one \<open>Flush\<close>, then \<open>Code\<close>.\<close>

fun write_all :: "u32 list \<Rightarrow> UintStream \<Rightarrow> error + UintStream" where
  "write_all [] s = Inr s"
| "write_all (v # vs) s =
     (case UintStream_Write v s of Inl e \<Rightarrow> Inl e | Inr s' \<Rightarrow> write_all vs s')"

definition encode_state :: "u32 list \<Rightarrow> error + UintStream" where
  "encode_state vs =
     (case write_all vs UintStream_new of Inl e \<Rightarrow> Inl e | Inr s \<Rightarrow> UintStream_Flush s)"

definition encode :: "u32 list \<Rightarrow> error + u8 list" where
  "encode vs = (case encode_state vs of Inl e \<Rightarrow> Inl e | Inr s \<Rightarrow> UintStream_Code s)"

section \<open>class ReverseUintStream\<close>

record ReverseUintStream =
  bit_reader :: ReverseBitStream
  prev_num_bits :: int
  cur_num_bits :: int
  zero_runlength :: int

text \<open>Conversion of an unsigned 32-bit value to \<open>int\<close>, and the value an \<open>int\<close> expression
  takes in a 32-bit two's-complement \<open>int\<close>.\<close>

definition int_of_u32 :: "u32 \<Rightarrow> int" where
  "int_of_u32 x = sint x"

definition wrap_int :: "int \<Rightarrow> int" where
  "wrap_int n = sint (word_of_int n :: 32 word)"

definition ReverseUintStream_new :: "u8 list \<Rightarrow> error + ReverseUintStream" where
  "ReverseUintStream_new code =
     (if code = [] then Inl AssertionFailed
      else
        case ReverseBitStream_Read 5 (ReverseBitStream_new code) of
          None \<Rightarrow> Inl AssertionFailed
        | Some (nbits, r1) \<Rightarrow>
            if nbits \<ge> 31 then
              (case ReverseBitStream_Read 1 r1 of
                 None \<Rightarrow> Inl AssertionFailed
               | Some (extra_bit, r2) \<Rightarrow>
                   Inr \<lparr> bit_reader = r2,
                         prev_num_bits = int_of_u32 (nbits + extra_bit),
                         cur_num_bits = int_of_u32 (nbits + extra_bit),
                         zero_runlength = - 1 \<rparr>)
            else
              Inr \<lparr> bit_reader = r1,
                    prev_num_bits = int_of_u32 nbits,
                    cur_num_bits = int_of_u32 nbits,
                    zero_runlength = - 1 \<rparr>)"

text \<open>The \<open>while (1)\<close> loop of \<open>Read\<close> that counts the zero bits before the first one bit.  It
  yields \<open>None\<close> where the source returns false.\<close>

function read_unary :: "int \<Rightarrow> ReverseBitStream \<Rightarrow> (int \<times> ReverseBitStream) option" where
  "read_unary num_zeros_read r =
     (case ReverseBitStream_Read 1 r of
        None \<Rightarrow> None
      | Some (b, r') \<Rightarrow>
          if num_zeros_read > 31 then None
          else if b = 0 then read_unary (num_zeros_read + 1) r'
          else Some (num_zeros_read, r'))"
  by pat_completeness auto
termination
  by (relation "measure (\<lambda>(n, r). length r)")
     (auto simp: ReverseBitStream_Read_def split: if_splits)

declare read_unary.simps [simp del]

text \<open>\<open>Read\<close> returns false as \<open>None\<close>, and true with the value stored through \<open>int_out\<close> as
  \<open>Some\<close>.  The result of reading the field \<open>x\<close> of a zero-run code is not checked by the
  source; when that read fails \<open>x\<close> keeps the indeterminate content of an uninitialised
  local, which the model takes as the parameter \<open>x_uninit\<close>.\<close>

definition next_num_bits_of ::
  "u32 \<Rightarrow> ReverseUintStream \<Rightarrow> (int \<times> ReverseUintStream) option" where
  "next_num_bits_of x_uninit d =
     (let cur = cur_num_bits d in
      if cur \<noteq> 0 then
        (case ReverseBitStream_Read 1 (bit_reader d) of
           None \<Rightarrow> None
         | Some (bit1, r1) \<Rightarrow>
             if bit1 = 0 then Some (cur, d\<lparr> bit_reader := r1 \<rparr>)
             else
               (case ReverseBitStream_Read 1 r1 of
                  None \<Rightarrow> None
                | Some (bit2, r2) \<Rightarrow>
                    if bit2 \<noteq> 0 then
                      (if cur + 1 > 32 then None else Some (cur + 1, d\<lparr> bit_reader := r2 \<rparr>))
                    else
                      (if cur - 1 < 0 then None else Some (cur - 1, d\<lparr> bit_reader := r2 \<rparr>))))
      else if zero_runlength d \<ge> 0 then
        Some (if zero_runlength d = 0 then 1 else 0,
              d\<lparr> zero_runlength := wrap_int (zero_runlength d - 1) \<rparr>)
      else
        (case read_unary 0 (bit_reader d) of
           None \<Rightarrow> None
         | Some (num_zeros_read, r1) \<Rightarrow>
             let (x, r2) = (case ReverseBitStream_Read num_zeros_read r1 of
                              None \<Rightarrow> (x_uninit, r1)
                            | Some (x', r') \<Rightarrow> (x', r'));
                 num_zeros_in_run = int_of_u32 (push_bit (nat num_zeros_read) 1 + x)
             in Some (if num_zeros_in_run = 1 then 1 else 0,
                      d\<lparr> bit_reader := r2,
                         zero_runlength := wrap_int (num_zeros_in_run - 2) \<rparr>)))"

definition ReverseUintStream_Read ::
  "u32 \<Rightarrow> ReverseUintStream \<Rightarrow> (u32 \<times> ReverseUintStream) option" where
  "ReverseUintStream_Read x_uninit d =
     (let prev = prev_num_bits d; cur = cur_num_bits d in
      case next_num_bits_of x_uninit d of
        None \<Rightarrow> None
      | Some (next, d1) \<Rightarrow>
          if top_bit_redundant prev cur next then
            (case ReverseBitStream_Read (cur - 1) (bit_reader d1) of
               None \<Rightarrow> None
             | Some (v, r) \<Rightarrow>
                 Some (v OR (push_bit (nat (cur - 1)) 1),
                       d1\<lparr> bit_reader := r, prev_num_bits := cur, cur_num_bits := next \<rparr>))
          else
            (case ReverseBitStream_Read cur (bit_reader d1) of
               None \<Rightarrow> None
             | Some (v, r) \<Rightarrow>
                 Some (v, d1\<lparr> bit_reader := r, prev_num_bits := cur, cur_num_bits := next \<rparr>)))"

text \<open>\<open>Read\<close> called \<open>n\<close> times in a row; \<open>None\<close> as soon as one call returns false.\<close>

fun read_all :: "u32 \<Rightarrow> nat \<Rightarrow> ReverseUintStream \<Rightarrow> (u32 list \<times> ReverseUintStream) option" where
  "read_all x_uninit 0 d = Some ([], d)"
| "read_all x_uninit (Suc n) d =
     (case ReverseUintStream_Read x_uninit d of
        None \<Rightarrow> None
      | Some (v, d') \<Rightarrow>
          (case read_all x_uninit n d' of
             None \<Rightarrow> None
           | Some (vs, d'') \<Rightarrow> Some (v # vs, d'')))"

definition decode :: "u32 \<Rightarrow> nat \<Rightarrow> u8 list \<Rightarrow> u32 list option" where
  "decode x_uninit n code =
     (case ReverseUintStream_new code of
        Inl e \<Rightarrow> None
      | Inr d \<Rightarrow> map_option fst (read_all x_uninit n d))"

section \<open>classes IntStream and ReverseIntStream\<close>

definition zigzag :: "i32 \<Rightarrow> u32" where
  "zigzag v = (if 0 \<le> sint v then 2 * v else - (2 * v) - 1)"

definition IntStream_Write :: "i32 \<Rightarrow> UintStream \<Rightarrow> error + UintStream" where
  "IntStream_Write v s = UintStream_Write (zigzag v) s"

definition unzigzag :: "u32 \<Rightarrow> i32" where
  "unzigzag i = (if i mod 2 = 0 then i div 2 else - (i div 2) - 1)"

definition ReverseIntStream_Read ::
  "u32 \<Rightarrow> ReverseUintStream \<Rightarrow> (i32 \<times> ReverseUintStream) option" where
  "ReverseIntStream_Read x_uninit d =
     (case ReverseUintStream_Read x_uninit d of
        None \<Rightarrow> None
      | Some (i, d') \<Rightarrow> Some (unzigzag i, d'))"

text \<open>The documented use of the signed classes: \<open>IntStream\<close> inherits \<open>Flush\<close> and \<open>Code\<close>
  from \<open>UintStream\<close>, and \<open>ReverseIntStream\<close> its constructor from \<open>ReverseUintStream\<close>.\<close>

fun IntStream_write_all :: "i32 list \<Rightarrow> UintStream \<Rightarrow> error + UintStream" where
  "IntStream_write_all [] s = Inr s"
| "IntStream_write_all (v # vs) s =
     (case IntStream_Write v s of Inl e \<Rightarrow> Inl e | Inr s' \<Rightarrow> IntStream_write_all vs s')"

definition IntStream_encode :: "i32 list \<Rightarrow> error + u8 list" where
  "IntStream_encode vs =
     (case IntStream_write_all vs UintStream_new of
        Inl e \<Rightarrow> Inl e
      | Inr s \<Rightarrow> (case UintStream_Flush s of Inl e \<Rightarrow> Inl e | Inr s' \<Rightarrow> UintStream_Code s'))"

fun ReverseIntStream_read_all ::
  "u32 \<Rightarrow> nat \<Rightarrow> ReverseUintStream \<Rightarrow> (i32 list \<times> ReverseUintStream) option" where
  "ReverseIntStream_read_all x_uninit 0 d = Some ([], d)"
| "ReverseIntStream_read_all x_uninit (Suc n) d =
     (case ReverseIntStream_Read x_uninit d of
        None \<Rightarrow> None
      | Some (v, d') \<Rightarrow>
          (case ReverseIntStream_read_all x_uninit n d' of
             None \<Rightarrow> None
           | Some (vs, d'') \<Rightarrow> Some (v # vs, d'')))"

definition ReverseIntStream_decode :: "u32 \<Rightarrow> nat \<Rightarrow> u8 list \<Rightarrow> i32 list option" where
  "ReverseIntStream_decode x_uninit n code =
     (case ReverseUintStream_new code of
        Inl e \<Rightarrow> None
      | Inr d \<Rightarrow> map_option fst (ReverseIntStream_read_all x_uninit n d))"

section \<open>Runs of zeros\<close>

text \<open>The length of the longest run of consecutive zeros in a sequence of values;
  \<open>k\<close> is the length of the run of zeros that ends just before the sequence.\<close>

fun longest_zero_run :: "nat \<Rightarrow> u32 list \<Rightarrow> nat" where
  "longest_zero_run k [] = k"
| "longest_zero_run k (v # vs) =
     (if v = 0 then longest_zero_run (Suc k) vs else max k (longest_zero_run 0 vs))"

section \<open>The planned widths as the specification words them\<close>

text \<open>Section 3 of the spec asks of a width sequence \<open>w\<close> for values \<open>v\<close>: every width holds its
  value, adjacent widths differ by at most one, and (from the comment on
  \<open>ComputeNumBits\<close>) the first is no less than \<open>most_recent_num_bits - 1\<close>.\<close>

fun slope_ok :: "int list \<Rightarrow> bool" where
  "slope_ok (x # y # ys) \<longleftrightarrow> \<bar>y - x\<bar> \<le> 1 \<and> slope_ok (y # ys)"
| "slope_ok _ \<longleftrightarrow> True"

definition admissible :: "int \<Rightarrow> u32 list \<Rightarrow> int list \<Rightarrow> bool" where
  "admissible most_recent vs w \<longleftrightarrow>
     list_all2 (\<lambda>v x. num_bits v \<le> x) vs w \<and> slope_ok w \<and>
     (case w of [] \<Rightarrow> True | x # _ \<Rightarrow> most_recent - 1 \<le> x)"

text \<open>The two passes by index: \<open>spec_forward\<close> is \<open>w[i] = max(nb(v[i]), w[i-1] - 1)\<close> with
  \<open>w[-1]\<close> the seed, and \<open>spec_backward f n d\<close> is the backward pass
  \<open>w[i] = max(w[i], w[i+1] - 1)\<close> at index \<open>i = n - d\<close>, with 0 past the end.\<close>

fun spec_forward :: "int \<Rightarrow> u32 list \<Rightarrow> nat \<Rightarrow> int" where
  "spec_forward seed vs 0 = max (num_bits (vs ! 0)) (seed - 1)"
| "spec_forward seed vs (Suc i) = max (num_bits (vs ! Suc i)) (spec_forward seed vs i - 1)"

fun spec_backward :: "(nat \<Rightarrow> int) \<Rightarrow> nat \<Rightarrow> nat \<Rightarrow> int" where
  "spec_backward f n 0 = 0"
| "spec_backward f n (Suc d) = max (f (n - Suc d)) (spec_backward f n d - 1)"

definition spec_widths :: "int \<Rightarrow> u32 list \<Rightarrow> int list" where
  "spec_widths seed vs =
     map (\<lambda>i. spec_backward (spec_forward seed vs) (length vs) (length vs - i)) [0..<length vs]"

section \<open>The calls of WriteCode and the bits they write\<close>

text \<open>The arguments \<open>(prev_num_bits, cur_num_bits, next_num_bits, i)\<close> of the calls of
  \<open>WriteCode\<close> that the loop of \<open>FlushSome\<close> makes, in order.\<close>

type_synonym call = "int \<times> int \<times> int \<times> u32"

fun loop_calls :: "int \<Rightarrow> int \<Rightarrow> int list \<Rightarrow> u32 list \<Rightarrow> call list" where
  "loop_calls p c (n # nexts) (v # vs) = (p, c, n, v) # loop_calls c n nexts vs"
| "loop_calls p c _ _ = []"

definition FlushSome_calls :: "nat \<Rightarrow> UintStream \<Rightarrow> call list" where
  "FlushSome_calls num_to_flush s =
     (let nbs0 = ComputeNumBits s;
          nbs = (if num_to_flush = length (buffer s) then nbs0 @ [last nbs0] else nbs0)
      in loop_calls (if started s then most_recent_num_bits s else nbs ! 0) (nbs ! 0)
           (take num_to_flush (tl nbs)) (take num_to_flush (buffer s)))"

fun WriteCode_all :: "call list \<Rightarrow> UintStream \<Rightarrow> error + UintStream" where
  "WriteCode_all [] s = Inr s"
| "WriteCode_all ((p, c, n, v) # cs) s =
     (case WriteCode p c n v s of Inl e \<Rightarrow> Inl e | Inr s' \<Rightarrow> WriteCode_all cs s')"

text \<open>The bit strings of the format (spec, sections 4.3 and 6): the prelude, the width-delta
  code, the value bits and the zero-run code.\<close>

definition prelude_code :: "int \<Rightarrow> bool list" where
  "prelude_code w =
     map (bit (if w = 32 then 31 else word_of_int w :: u32)) [0..<5]
     @ (if w \<ge> 31 then [bit (word_of_int (w - 31) :: u32) 0] else [])"

definition delta_code :: "int \<Rightarrow> bool list" where
  "delta_code d = (if d = 1 then [True, True] else if d = - 1 then [True, False] else [False])"

definition value_code :: "int \<Rightarrow> int \<Rightarrow> int \<Rightarrow> u32 \<Rightarrow> bool list" where
  "value_code p c n v = map (bit v) [0..<nat (if top_bit_redundant p c n then c - 1 else c)]"

definition run_code :: "u32 \<Rightarrow> bool list" where
  "run_code k =
     replicate (nat (num_bits k - 1)) False @ [True] @ map (bit k) [0..<nat (num_bits k - 1)]"

definition final_code :: "u32 \<Rightarrow> bool list" where
  "final_code k = (if k \<noteq> 0 then run_code k else [])"

text \<open>The bits a sequence of calls appends, and the count of pending zeros it leaves, from
  a given count of pending zeros.\<close>

fun calls_bits :: "u32 \<Rightarrow> call list \<Rightarrow> bool list" where
  "calls_bits k [] = []"
| "calls_bits k ((p, c, n, v) # cs) =
     (if c = 0 then calls_bits (k + 1) cs
      else final_code k @ delta_code (n - c) @ value_code p c n v @ calls_bits 0 cs)"

fun calls_pending :: "u32 \<Rightarrow> call list \<Rightarrow> u32" where
  "calls_pending k [] = k"
| "calls_pending k ((p, c, n, v) # cs) =
     (if c = 0 then calls_pending (k + 1) cs else calls_pending 0 cs)"

text \<open>The components of a call.\<close>

fun call_prev :: "call \<Rightarrow> int" where
  "call_prev (p, c, n, v) = p"

fun call_cur :: "call \<Rightarrow> int" where
  "call_cur (p, c, n, v) = c"

fun call_next :: "call \<Rightarrow> int" where
  "call_next (p, c, n, v) = n"

fun call_value :: "call \<Rightarrow> u32" where
  "call_value (p, c, n, v) = v"

text \<open>What \<open>WriteCode\<close> expects of its arguments, by its comments and assertions, together
  with the range of a width.\<close>

definition call_ok :: "call \<Rightarrow> bool" where
  "call_ok = (\<lambda>(p, c, n, v).
     0 \<le> c \<and> c \<le> 32 \<and> 0 \<le> n \<and> n \<le> 32 \<and> \<bar>n - c\<bar> \<le> 1 \<and> num_bits v \<le> c \<and>
     (top_bit_redundant p c n \<longrightarrow> num_bits v = c))"

text \<open>Consecutive calls hand the widths on: the current width of a call is the next width
  of the call before, and its previous width the current width of the call before.\<close>

fun chained :: "call list \<Rightarrow> bool" where
  "chained ((p, c, n, v) # (p', c', n', v') # cs) \<longleftrightarrow>
     p' = c \<and> c' = n \<and> chained ((p', c', n', v') # cs)"
| "chained _ \<longleftrightarrow> True"

section \<open>Auxiliary functions of the proofs\<close>

text \<open>The backward pass of \<open>ComputeNumBits\<close> read from the left: each element looks at the head
  of the rest.\<close>

fun from_right :: "int \<Rightarrow> int list \<Rightarrow> int list" where
  "from_right n [] = []"
| "from_right n (t # ts) = max t (hd (from_right n ts @ [n]) - 1) # from_right n ts"

text \<open>A sequence that never drops by more than one.\<close>

fun down_ok :: "int list \<Rightarrow> bool" where
  "down_ok (x # y # ys) \<longleftrightarrow> x - 1 \<le> y \<and> down_ok (y # ys)"
| "down_ok _ \<longleftrightarrow> True"

text \<open>The widths \<open>ComputeNumBits\<close> yields for a seed and a buffer.\<close>

definition widths :: "int \<Rightarrow> u32 list \<Rightarrow> int list" where
  "widths seed vs = from_right 0 (forward_pass seed vs)"

text \<open>The invariant of the encoder between calls of \<open>Write\<close>, for the values \<open>vs\<close> written so
  far: before the first flush nothing has been emitted; afterwards the bits emitted are
  the prelude and the bits of one chain of valid calls, whose values followed by the
  buffer are \<open>vs\<close>, and the next width announced by the last call is the width every later
  flush computes for the first buffered value.\<close>

definition enc_core :: "u32 list \<Rightarrow> UintStream \<Rightarrow> bool" where
  "enc_core vs s \<longleftrightarrow>
     (if started s then
        (\<exists>cs. cs \<noteq> [] \<and> chained cs \<and> list_all call_ok cs
           \<and> call_prev (hd cs) = call_cur (hd cs)
           \<and> call_cur (hd cs) = widths 0 (take 64 vs) ! 0
           \<and> map call_value cs @ buffer s = vs
           \<and> bit_stream s = prelude_code (call_cur (hd cs)) @ calls_bits 0 cs
           \<and> num_pending_zeros s = calls_pending 0 cs
           \<and> most_recent_num_bits s = call_cur (last cs)
           \<and> (\<forall>ws. widths (most_recent_num_bits s) (buffer s @ ws) ! 0 = call_next (last cs)))
      else buffer s = vs \<and> bit_stream s = [] \<and> num_pending_zeros s = 0
           \<and> most_recent_num_bits s = 0)"

definition enc_inv :: "u32 list \<Rightarrow> UintStream \<Rightarrow> bool" where
  "enc_inv vs s \<longleftrightarrow>
     \<not> flushed s \<and> length (buffer s) < 64 \<and> enc_core vs s \<and>
     (started s \<longrightarrow> 32 \<le> length (buffer s) \<and> 64 \<le> length vs)"

text \<open>The invariant of the encoder while only zeros are written, \<open>m\<close> of them so far: the
  zeros not yet counted in \<open>num_pending_zeros\<close> are in the buffer, and nothing but the
  prelude has been emitted.\<close>

definition zeros_inv :: "nat \<Rightarrow> UintStream \<Rightarrow> bool" where
  "zeros_inv m s \<longleftrightarrow>
     \<not> flushed s \<and> most_recent_num_bits s = 0 \<and> length (buffer s) < 64 \<and>
     (\<forall>v \<in> set (buffer s). v = 0) \<and>
     (0 < m \<longrightarrow> buffer s \<noteq> []) \<and>
     num_pending_zeros s + of_nat (length (buffer s)) = of_nat m \<and>
     (if started s then bit_stream s = prelude_code 0
      else bit_stream s = [] \<and> num_pending_zeros s = 0)"

section \<open>Signed wrappers: the zig-zag map\<close>

lemma zigzag_int:
  "zigzag s = word_of_int (if 0 \<le> sint s then 2 * sint s else - (2 * sint s) - 1)"
  by (simp add: zigzag_def)

lemma zigzag_range:
  "0 \<le> (if 0 \<le> sint (s::32 word) then 2 * sint s else - (2 * sint s) - 1) \<and>
   (if 0 \<le> sint (s::32 word) then 2 * sint s else - (2 * sint s) - 1) < 2 ^ 32"
  using sint_ge [of s] sint_lt [of s] by auto

lemma uint_zigzag:
  "uint (zigzag s) = (if 0 \<le> sint s then 2 * sint s else - (2 * sint s) - 1)"
  using zigzag_range [of s] unfolding zigzag_int uint_word_of_int by (simp split: if_splits)

lemma unzigzag_int:
  "unzigzag u = word_of_int (if uint u mod 2 = 0 then uint u div 2 else - (uint u div 2) - 1)"
proof -
  have "0 \<le> uint u div 2 \<and> uint u div 2 < 2 ^ 32"
    using uint_lt2p [of u] by simp
  then have "uint u div 2 mod 2 ^ 32 = uint u div 2" by simp
  then have d: "u div 2 = word_of_int (uint u div 2)"
    by (simp add: word_eq_iff_unsigned[where ?'a = int] uint_div uint_word_of_int)
  have m: "u mod 2 = 0 \<longleftrightarrow> uint u mod 2 = 0"
    by (simp add: word_eq_iff_unsigned[where ?'a = int] uint_mod)
  show ?thesis unfolding unzigzag_def d m by simp
qed

lemma unzigzag_zigzag: "unzigzag (zigzag s) = s"
proof (cases "0 \<le> sint s")
  case True
  then show ?thesis unfolding unzigzag_int uint_zigzag by simp
next
  case False
  have "(- (2 * sint s) - 1) div 2 = - sint s - 1" by simp
  moreover have "(- (2 * sint s) - 1) mod 2 = 1" by presburger
  ultimately show ?thesis using False unfolding unzigzag_int uint_zigzag by simp
qed

section \<open>Bit widths and bit fields\<close>

lemma num_bits_nat_le_iff: "num_bits_nat n \<le> k \<longleftrightarrow> n < 2 ^ k"
proof (induction n arbitrary: k rule: num_bits_nat.induct)
  case (1 n)
  show ?case
  proof (cases "n = 0")
    case True
    then show ?thesis by (simp add: num_bits_nat.simps)
  next
    case False
    show ?thesis
    proof (cases k)
      case 0
      with False show ?thesis by (simp add: num_bits_nat.simps)
    next
      case (Suc j)
      have "num_bits_nat n \<le> Suc j \<longleftrightarrow> num_bits_nat (n div 2) \<le> j"
        using False by (simp add: num_bits_nat.simps [of n])
      also have "\<dots> \<longleftrightarrow> n div 2 < 2 ^ j" using 1 [OF False] .
      also have "\<dots> \<longleftrightarrow> n < 2 ^ Suc j" by auto
      finally show ?thesis using Suc by simp
    qed
  qed
qed

lemma num_bits_nat_0 [simp]: "num_bits_nat 0 = 0"
  by (simp add: num_bits_nat.simps)

lemma num_bits_nat_eq_0_iff [simp]: "num_bits_nat n = 0 \<longleftrightarrow> n = 0"
  by (simp add: num_bits_nat.simps [of n])

lemma num_bits_nat_lower: "n \<noteq> 0 \<Longrightarrow> 2 ^ (num_bits_nat n - 1) \<le> n"
proof -
  assume n: "n \<noteq> 0"
  then have pos: "0 < num_bits_nat n" using num_bits_nat_eq_0_iff [of n] by linarith
  have "\<not> num_bits_nat n \<le> num_bits_nat n - 1" using pos by simp
  then show ?thesis unfolding num_bits_nat_le_iff by simp
qed

lemma num_bits_nat_upper: "n < 2 ^ num_bits_nat n"
  using num_bits_nat_le_iff [of n "num_bits_nat n"] by simp

lemma num_bits_nonneg [simp]: "0 \<le> num_bits x"
  by (simp add: num_bits_def)

lemma num_bits_le_32 [simp]: "num_bits x \<le> 32"
proof -
  have "unat x < 2 ^ 32" using unsigned_less [of x, where ?'a = nat] by simp
  then have "num_bits_nat (unat x) \<le> 32" by (simp add: num_bits_nat_le_iff)
  then show ?thesis by (simp add: num_bits_def)
qed

lemma num_bits_le_iff: "num_bits x \<le> int k \<longleftrightarrow> unat x < 2 ^ k"
  by (simp add: num_bits_def num_bits_nat_le_iff)

lemma num_bits_eq_0_iff [simp]: "num_bits x = 0 \<longleftrightarrow> x = 0"
  by (simp add: num_bits_def unat_eq_0)

lemma num_bits_0 [simp]: "num_bits 0 = 0"
  by simp

lemma num_bits_le_0_iff [simp]: "num_bits x \<le> 0 \<longleftrightarrow> x = 0"
  using num_bits_nonneg [of x] num_bits_eq_0_iff [of x] by linarith

lemma take_bit_num_bits: "num_bits x \<le> int k \<Longrightarrow> take_bit k x = x"
  unfolding num_bits_le_iff
  by (simp add: word_eq_iff_unsigned [where ?'a = nat] unsigned_take_bit_eq take_bit_nat_eq_self)

lemma not_bit_above_num_bits:
  assumes "num_bits x \<le> int k"
  shows "\<not> bit x k"
proof -
  have "bit x k = bit (take_bit k x) k" using take_bit_num_bits [OF assms] by simp
  then show ?thesis by (simp add: bit_take_bit_iff)
qed

lemma unat_take_bit_less: "unat (take_bit k (x::u32)) < 2 ^ k"
  by (simp add: unsigned_take_bit_eq)

lemma bit_top_num_bits:
  assumes "x \<noteq> 0"
  shows "bit x (nat (num_bits x - 1))"
proof (rule ccontr)
  define h where "h = num_bits_nat (unat x) - 1"
  have ux: "unat x \<noteq> 0" using assms by (simp add: unat_eq_0)
  then have pos: "0 < num_bits_nat (unat x)" using num_bits_nat_eq_0_iff [of "unat x"] by linarith
  then have nb: "num_bits x = int (Suc h)" by (simp add: num_bits_def h_def)
  then have hh: "nat (num_bits x - 1) = h" by simp
  assume "\<not> bit x (nat (num_bits x - 1))"
  then have nb0: "\<not> bit x h" using hh by simp
  have "take_bit h x = x"
  proof (rule bit_eqI)
    fix n
    have "bit x n \<Longrightarrow> n < h"
    proof (rule ccontr)
      assume b: "bit x n" and "\<not> n < h"
      then have "n = h \<or> Suc h \<le> n" by linarith
      then show False
      proof
        assume "n = h" with b nb0 show False by simp
      next
        assume "Suc h \<le> n"
        then have "num_bits x \<le> int n" using nb by simp
        from not_bit_above_num_bits [OF this] b show False by simp
      qed
    qed
    then show "bit (take_bit h x) n = bit x n" by (auto simp: bit_take_bit_iff)
  qed
  then have "unat x < 2 ^ h" using unat_take_bit_less [of h x] by simp
  moreover have "2 ^ h \<le> unat x" using num_bits_nat_lower [OF ux] by (simp add: h_def)
  ultimately show False by simp
qed

lemma Read_written:
  "ReverseBitStream_Read (int n) (map (bit v) [0..<n] @ rest) = Some (take_bit n v, rest)"
  by (simp add: ReverseBitStream_Read_def horner_sum_bit_eq_take_bit)

section \<open>The width planner\<close>

lemma length_forward_pass [simp]: "length (forward_pass p vs) = length vs"
  by (induction vs arbitrary: p) simp_all

lemma length_backward_pass [simp]: "length (backward_pass n ts) = length ts"
  by (induction ts arbitrary: n) simp_all

lemma backward_pass_append:
  "backward_pass n (ts @ [t]) =
     backward_pass n ts @ [int_math_max t (last (n # backward_pass n ts) - 1)]"
  by (induction ts arbitrary: n) simp_all

lemma forward_pass_lower: "list_all2 (\<lambda>v x. num_bits v \<le> x) vs (forward_pass p vs)"
  by (induction vs arbitrary: p) (simp_all add: int_math_max_def)

lemma length_from_right [simp]: "length (from_right n ts) = length ts"
  by (induction ts) simp_all

lemma rev_backward_pass: "rev (backward_pass n (rev ts)) = from_right n ts"
proof (induction ts)
  case Nil
  then show ?case by simp
next
  case (Cons t ts)
  have "last (n # backward_pass n (rev ts)) = hd (from_right n ts @ [n])"
    using Cons.IH [symmetric] by (cases "backward_pass n (rev ts)" rule: rev_cases) (simp_all add: hd_rev)
  then show ?case using Cons.IH
    by (simp add: backward_pass_append int_math_max_def max_def)
qed

lemma ComputeNumBits_alt:
  "ComputeNumBits s = from_right 0 (forward_pass (most_recent_num_bits s) (buffer s))"
  by (simp add: ComputeNumBits_def rev_backward_pass)


lemma down_ok_forward_pass: "down_ok (forward_pass p vs)"
proof (induction vs arbitrary: p)
  case Nil
  then show ?case by simp
next
  case (Cons v vs)
  then show ?case by (cases vs) (simp_all add: int_math_max_def)
qed

lemma from_right_upper: "list_all2 (\<le>) xs (from_right n xs)"
  by (induction xs) simp_all

lemma slope_ok_from_right: "down_ok xs \<Longrightarrow> slope_ok (from_right n xs)"
proof (induction xs rule: down_ok.induct)
  case (1 x y ys)
  then have "slope_ok (from_right n (y # ys))" by simp
  moreover have "x - 1 \<le> y" using 1 by simp
  ultimately show ?case by (simp add: max_def)
qed simp_all

lemma slope_ok_tl: "slope_ok (x # xs) \<Longrightarrow> slope_ok xs"
  by (cases xs) simp_all

lemma forward_pass_least:
  assumes "list_all2 (\<lambda>v x. num_bits v \<le> x) vs u" and "slope_ok u"
    and "case u of [] \<Rightarrow> True | x # _ \<Rightarrow> p - 1 \<le> x"
  shows "list_all2 (\<le>) (forward_pass p vs) u"
  using assms
proof (induction vs arbitrary: p u)
  case Nil
  then show ?case by simp
next
  case (Cons v vs)
  then obtain x u' where u: "u = x # u'" and x: "num_bits v \<le> x"
      and u': "list_all2 (\<lambda>v x. num_bits v \<le> x) vs u'"
    by (auto simp: list_all2_Cons1)
  have px: "p - 1 \<le> x" using Cons.prems(3) u by simp
  let ?m = "int_math_max (num_bits v) (p - 1)"
  have mx: "?m \<le> x" using x px by (simp add: int_math_max_def)
  have "case u' of [] \<Rightarrow> True | y # _ \<Rightarrow> ?m - 1 \<le> y"
    using Cons.prems(2) u mx by (cases u') auto
  then have "list_all2 (\<le>) (forward_pass ?m vs) u'"
    using Cons.IH [OF u'] Cons.prems(2) u slope_ok_tl by blast
  then show ?case using u mx by simp
qed

lemma from_right_least:
  assumes "list_all2 (\<le>) xs u" and "slope_ok u" and "\<forall>x \<in> set u. n - 1 \<le> x"
  shows "list_all2 (\<le>) (from_right n xs) u"
  using assms
proof (induction xs arbitrary: u)
  case Nil
  then show ?case by simp
next
  case (Cons x xs)
  then obtain y u' where u: "u = y # u'" and xy: "x \<le> y" and u': "list_all2 (\<le>) xs u'"
    by (auto simp: list_all2_Cons1)
  have ih: "list_all2 (\<le>) (from_right n xs) u'"
    using Cons.IH [OF u'] Cons.prems(2,3) u slope_ok_tl by auto
  have "hd (from_right n xs @ [n]) - 1 \<le> y"
  proof (cases xs)
    case Nil
    then show ?thesis using Cons.prems(3) u by simp
  next
    case (Cons x' xs')
    then obtain y' u'' where "u' = y' # u''" using u' by (auto simp: list_all2_Cons1)
    then show ?thesis using ih Cons Cons.prems(2) u by auto
  qed
  then show ?case using u xy ih by simp
qed

lemma list_all2_trans_le:
  "list_all2 (\<lambda>v x. num_bits v \<le> x) vs xs \<Longrightarrow> list_all2 (\<le>) xs ys \<Longrightarrow>
   list_all2 (\<lambda>v x. num_bits v \<le> x) vs ys"
  by (induction vs xs arbitrary: ys rule: list_all2_induct) (auto simp: list_all2_Cons1)

lemma ComputeNumBits_admissible:
  "admissible (most_recent_num_bits s) (buffer s) (ComputeNumBits s)"
proof -
  let ?f = "forward_pass (most_recent_num_bits s) (buffer s)"
  have 1: "list_all2 (\<lambda>v x. num_bits v \<le> x) (buffer s) (from_right 0 ?f)"
    using list_all2_trans_le [OF forward_pass_lower from_right_upper] .
  have 2: "slope_ok (from_right 0 ?f)"
    using slope_ok_from_right [OF down_ok_forward_pass] .
  have 3: "case from_right 0 ?f of [] \<Rightarrow> True | x # _ \<Rightarrow> most_recent_num_bits s - 1 \<le> x"
    by (cases "buffer s") (simp_all add: int_math_max_def le_max_iff_disj)
  show ?thesis unfolding admissible_def ComputeNumBits_alt using 1 2 3 by simp
qed

lemma ComputeNumBits_least:
  assumes "admissible (most_recent_num_bits s) (buffer s) u"
  shows "list_all2 (\<le>) (ComputeNumBits s) u"
proof -
  have lb: "list_all2 (\<lambda>v x. num_bits v \<le> x) (buffer s) u" and sl: "slope_ok u"
    and hd: "case u of [] \<Rightarrow> True | x # _ \<Rightarrow> most_recent_num_bits s - 1 \<le> x"
    using assms by (simp_all add: admissible_def)
  have f: "list_all2 (\<le>) (forward_pass (most_recent_num_bits s) (buffer s)) u"
    using forward_pass_least [OF lb sl hd] .
  have "\<forall>x \<in> set u. 0 - 1 \<le> x"
  proof
    fix x assume "x \<in> set u"
    then obtain i where "i < length u" "u ! i = x" by (auto simp: in_set_conv_nth)
    then have "num_bits (buffer s ! i) \<le> x" using lb by (auto simp: list_all2_conv_all_nth)
    then show "0 - 1 \<le> x" using num_bits_nonneg [of "buffer s ! i"] by linarith
  qed
  from from_right_least [OF f sl this] show ?thesis by (simp add: ComputeNumBits_alt)
qed


lemma forward_pass_snoc:
  "forward_pass p (vs @ [v]) =
     forward_pass p vs @ [max (num_bits v) (last (p # forward_pass p vs) - 1)]"
  by (induction vs arbitrary: p) (simp_all add: int_math_max_def max_def)

lemma spec_forward_append: "i < length vs \<Longrightarrow> spec_forward p (vs @ ws) i = spec_forward p vs i"
  by (induction i) (simp_all add: nth_append)

lemma forward_pass_nth: "i < length vs \<Longrightarrow> forward_pass p vs ! i = spec_forward p vs i"
proof (induction vs arbitrary: i rule: rev_induct)
  case Nil
  then show ?case by simp
next
  case (snoc v vs)
  show ?case
  proof (cases "i < length vs")
    case True
    then show ?thesis using snoc.IH [OF True]
      by (simp add: forward_pass_snoc nth_append spec_forward_append)
  next
    case False
    then have i: "i = length vs" using snoc.prems by simp
    show ?thesis
    proof (cases vs rule: rev_cases)
      case Nil
      then show ?thesis using i by (simp add: int_math_max_def max_def)
    next
      case (snoc vs' v')
      then have k: "length vs = Suc (length vs')" by simp
      have "last (forward_pass p vs) = forward_pass p vs ! length vs'"
        using k by (metis diff_Suc_1 last_conv_nth length_0_conv length_forward_pass nat.simps(3))
      also have "\<dots> = spec_forward p vs (length vs')" using snoc.IH [of "length vs'"] k by simp
      finally have "last (forward_pass p vs) = spec_forward p (vs @ [v]) (length vs')"
        using k by (simp add: spec_forward_append)
      moreover have "forward_pass p vs \<noteq> []" using k by (metis length_forward_pass length_0_conv nat.simps(3))
      ultimately show ?thesis using i k by (simp add: forward_pass_snoc nth_append)
    qed
  qed
qed

lemma spec_backward_shift:
  "d \<le> n \<Longrightarrow> spec_backward f (Suc n) d = spec_backward (\<lambda>j. f (Suc j)) n d"
  by (induction d) (simp_all add: Suc_diff_Suc)

lemma spec_backward_cong:
  "\<forall>j < n. f j = g j \<Longrightarrow> d \<le> n \<Longrightarrow> spec_backward f n d = spec_backward g n d"
  by (induction d) simp_all

lemma from_right_nth:
  "i < length xs \<Longrightarrow> from_right 0 xs ! i = spec_backward (\<lambda>j. xs ! j) (length xs) (length xs - i)"
proof (induction xs arbitrary: i)
  case Nil
  then show ?case by simp
next
  case (Cons x xs)
  show ?case
  proof (cases i)
    case 0
    have "hd (from_right 0 xs @ [0]) = spec_backward (\<lambda>j. (x # xs) ! j) (Suc (length xs)) (length xs)"
    proof (cases xs)
      case Nil
      then show ?thesis by simp
    next
      case (Cons y ys)
      then have "hd (from_right 0 xs @ [0]) = from_right 0 xs ! 0"
        by (simp add: hd_conv_nth)
      also have "\<dots> = spec_backward (\<lambda>j. xs ! j) (length xs) (length xs)"
        using Cons.IH [of 0] Cons by simp
      finally show ?thesis by (simp add: spec_backward_shift)
    qed
    then show ?thesis using 0 by simp
  next
    case (Suc k)
    then have k: "k < length xs" using Cons.prems by simp
    show ?thesis using Suc Cons.IH [OF k] k by (simp add: spec_backward_shift)
  qed
qed

lemma ComputeNumBits_spec_widths:
  "ComputeNumBits s = spec_widths (most_recent_num_bits s) (buffer s)"
proof (rule nth_equalityI)
  show "length (ComputeNumBits s) = length (spec_widths (most_recent_num_bits s) (buffer s))"
    by (simp add: ComputeNumBits_alt spec_widths_def)
next
  fix i assume "i < length (ComputeNumBits s)"
  then have i: "i < length (buffer s)" by (simp add: ComputeNumBits_alt)
  let ?f = "forward_pass (most_recent_num_bits s) (buffer s)"
  have "from_right 0 ?f ! i = spec_backward (\<lambda>j. ?f ! j) (length (buffer s)) (length (buffer s) - i)"
    using from_right_nth [of i ?f] i by simp
  also have "\<dots> = spec_backward (spec_forward (most_recent_num_bits s) (buffer s))
       (length (buffer s)) (length (buffer s) - i)"
    by (rule spec_backward_cong) (simp_all add: forward_pass_nth)
  finally show "ComputeNumBits s ! i = spec_widths (most_recent_num_bits s) (buffer s) ! i"
    using i by (simp add: ComputeNumBits_alt spec_widths_def)
qed

text \<open>Claim C2.  For every buffer and every seed \<open>most_recent_num_bits\<close>, the widths computed
  by \<open>ComputeNumBits\<close> satisfy the three rules (each width holds its value, adjacent widths
  differ by at most one, the first is at least the seed minus one); every integer
  sequence satisfying them is pointwise at least as large; and the result is the forward
  pass followed by the backward pass seeded with 0 past the end.\<close>

theorem ComputeNumBits_minimal:
  "admissible (most_recent_num_bits s) (buffer s) (ComputeNumBits s)
   \<and> (\<forall>u. admissible (most_recent_num_bits s) (buffer s) u \<longrightarrow>
          list_all2 (\<le>) (ComputeNumBits s) u)
   \<and> ComputeNumBits s = spec_widths (most_recent_num_bits s) (buffer s)"
  using ComputeNumBits_admissible ComputeNumBits_least ComputeNumBits_spec_widths by blast

theorem ComputeNumBits_minimal_witness:
  "admissible 2 [7, 0, 0, 7] [3, 3, 3, 4]
   \<and> list_all2 (\<le>)
       (ComputeNumBits (UintStream_new\<lparr> buffer := [7, 0, 0, 7], most_recent_num_bits := 2 \<rparr>))
       [3, 3, 3, 4]
   \<and> ComputeNumBits (UintStream_new\<lparr> buffer := [7, 0, 0, 7], most_recent_num_bits := 2 \<rparr>)
       = [3, 2, 2, 3]"
proof -
  let ?s = "UintStream_new\<lparr> buffer := [7, 0, 0, 7], most_recent_num_bits := 2 \<rparr>"
  have a: "admissible 2 [7, 0, 0, 7] [3, 3, 3, 4]" by code_simp
  have f: "most_recent_num_bits ?s = 2" "buffer ?s = [7, 0, 0, 7]"
    by (simp_all add: UintStream_new_def)
  have "\<forall>u. admissible 2 [7, 0, 0, 7] u \<longrightarrow> list_all2 (\<le>) (ComputeNumBits ?s) u"
    using ComputeNumBits_minimal [of ?s] unfolding f by blast
  then have l: "list_all2 (\<le>) (ComputeNumBits ?s) [3, 3, 3, 4]" using a by blast
  have c: "ComputeNumBits ?s = [3, 2, 2, 3]" by code_simp
  show ?thesis using a l c by blast
qed

section \<open>What the encoder writes\<close>

lemma FlushSome_loop_calls: "FlushSome_loop p c ns vs s = WriteCode_all (loop_calls p c ns vs) s"
  by (induction p c ns vs s rule: FlushSome_loop.induct) (simp_all split: sum.splits)

lemma word_le_1_iff: "1 \<le> (k::u32) \<longleftrightarrow> k \<noteq> 0"
  by (simp add: word_le_nat_alt unat_eq_0 Suc_le_eq unat_gt_0)

lemma num_bits_pos: "k \<noteq> 0 \<Longrightarrow> 1 \<le> num_bits k"
  using num_bits_nonneg [of k] num_bits_eq_0_iff [of k] by linarith

lemma unary_bits:
  "h < 32 \<Longrightarrow> map (bit (2 ^ h :: u32)) [0..<Suc h] = replicate h False @ [True]"
  by (auto simp: bit_exp_iff simp del: upt_Suc intro!: nth_equalityI)
     (auto simp: nth_append less_Suc_eq)

lemma field_bits:
  "map (bit (k AND (2 ^ h - 1))) [0..<h] = map (bit (k::u32)) [0..<h]"
proof -
  have "2 ^ h - 1 = (mask h :: u32)" by (simp add: mask_eq_exp_minus_1)
  then show ?thesis by (auto simp: bit_and_iff bit_mask_iff dest: bit_imp_le_length)
qed

lemma nat_int_Suc: "nat (int h + 1) = Suc h"
  by simp

lemma FlushPendingZeros_eq:
  assumes "num_pending_zeros s \<noteq> 0"
  shows "FlushPendingZeros s =
     Inr (s\<lparr> bit_stream := bit_stream s @ run_code (num_pending_zeros s), num_pending_zeros := 0 \<rparr>)"
proof -
  let ?k = "num_pending_zeros s"
  define h where "h = nat (num_bits ?k - 1)"
  have nb: "num_bits ?k - 1 = int h" "num_bits ?k = int (Suc h)"
    using num_bits_pos [OF assms] by (simp_all add: h_def)
  have "h < 32" using num_bits_le_32 [of ?k] nb by simp
  then show ?thesis
    using assms
    by (simp add: FlushPendingZeros_def word_le_1_iff nb BitStream_Write_def Let_def run_code_def
        field_bits unary_bits nat_int_Suc del: upt_Suc)
qed


lemma top_bit_set:
  assumes "num_bits v = c" and "0 < c"
  shows "(v AND 2 ^ nat (c - 1)) \<noteq> 0"
proof -
  have "v \<noteq> 0" using assms by auto
  from bit_top_num_bits [OF this] have b: "bit v (nat (c - 1))" using assms by simp
  have "bit (v AND 2 ^ nat (c - 1)) (nat (c - 1))"
    using b bit_imp_le_length [OF b] by (simp add: bit_and_iff bit_exp_iff)
  then show ?thesis by auto
qed

lemma xor_top_bits:
  "map (bit (v XOR 2 ^ h)) [0..<h] = map (bit (v::u32)) [0..<h]"
  by (auto simp: bit_xor_iff bit_exp_iff)

lemma WriteCode_zero:
  "WriteCode p 0 n v s = Inr (s\<lparr> num_pending_zeros := num_pending_zeros s + 1 \<rparr>)"
  by (simp add: WriteCode_def)

lemma WriteCode_nonzero:
  assumes ok: "call_ok (p, c, n, v)" and c: "c \<noteq> 0"
  shows "WriteCode p c n v s =
     Inr (s\<lparr> bit_stream := bit_stream s @ final_code (num_pending_zeros s)
                 @ delta_code (n - c) @ value_code p c n v,
              num_pending_zeros := 0 \<rparr>)"
proof -
  define s1 where "s1 = s\<lparr> bit_stream := bit_stream s @ final_code (num_pending_zeros s),
     num_pending_zeros := 0 \<rparr>"
  have f: "(if num_pending_zeros s \<noteq> 0 then FlushPendingZeros s else Inr s) = Inr s1"
    by (cases "num_pending_zeros s = 0") (simp_all add: s1_def final_code_def FlushPendingZeros_eq)
  have nb: "num_bits v \<le> c" and cpos: "0 < c" and d: "\<bar>n - c\<bar> \<le> 1"
    using ok c by (simp_all add: call_ok_def)
  have dl: "(if n - c = 1 then Inr (BitStream_Write 2 3 (bit_stream s1))
             else if n - c = - 1 then Inr (BitStream_Write 2 1 (bit_stream s1))
             else if \<not> n - c = 0 then Inl AssertionFailed
             else Inr (BitStream_Write 1 0 (bit_stream s1)))
            = Inr (bit_stream s1 @ delta_code (n - c))"
    using d by (auto simp: BitStream_Write_def delta_code_def upt_rec)
  show ?thesis
  proof (cases "top_bit_redundant p c n")
    case False
    then show ?thesis
      unfolding WriteCode_def Let_def f sum.case dl using c nb
      by (simp add: BitStream_Write_def value_code_def s1_def)
  next
    case True
    then have "num_bits v = c" using ok by (simp add: call_ok_def)
    from top_bit_set [OF this cpos] True show ?thesis
      unfolding WriteCode_def Let_def f sum.case dl using c nb
      by (simp add: BitStream_Write_def value_code_def s1_def xor_top_bits)
  qed
qed

lemma WriteCode_all_eq:
  "list_all call_ok cs \<Longrightarrow>
   WriteCode_all cs s =
     Inr (s\<lparr> bit_stream := bit_stream s @ calls_bits (num_pending_zeros s) cs,
              num_pending_zeros := calls_pending (num_pending_zeros s) cs \<rparr>)"
proof (induction cs arbitrary: s)
  case Nil
  then show ?case by simp
next
  case (Cons a cs)
  obtain p c n v where a: "a = (p, c, n, v)" by (cases a)
  show ?case
  proof (cases "c = 0")
    case True
    then show ?thesis using Cons a by (simp add: WriteCode_zero)
  next
    case False
    then show ?thesis using Cons a by (simp add: WriteCode_nonzero)
  qed
qed

section \<open>The calls made by FlushSome\<close>

lemma from_right_nth_rec:
  "i < length xs \<Longrightarrow>
   from_right n xs ! i =
     max (xs ! i) ((if Suc i < length xs then from_right n xs ! Suc i else n) - 1)"
proof (induction xs arbitrary: i)
  case Nil
  then show ?case by simp
next
  case (Cons x xs)
  show ?case
  proof (cases i)
    case 0
    then show ?thesis by (cases xs) simp_all
  next
    case (Suc k)
    then show ?thesis using Cons.IH [of k] Cons.prems by simp
  qed
qed

lemma forward_pass_Suc:
  "Suc i < length vs \<Longrightarrow>
   forward_pass p vs ! Suc i = max (num_bits (vs ! Suc i)) (forward_pass p vs ! i - 1)"
  by (simp add: forward_pass_nth)

lemma forward_pass_0:
  "vs \<noteq> [] \<Longrightarrow> forward_pass p vs ! 0 = max (num_bits (vs ! 0)) (p - 1)"
  by (simp add: forward_pass_nth)

lemma slope_ok_nth: "slope_ok w \<Longrightarrow> Suc i < length w \<Longrightarrow> \<bar>w ! Suc i - w ! i\<bar> \<le> 1"
proof (induction w arbitrary: i rule: slope_ok.induct)
  case (1 x y ys)
  then show ?case by (cases i) simp_all
qed simp_all

lemma slope_okI: "(\<And>i. Suc i < length w \<Longrightarrow> \<bar>w ! Suc i - w ! i\<bar> \<le> 1) \<Longrightarrow> slope_ok w"
proof (induction w rule: slope_ok.induct)
  case (1 x y ys)
  have "\<bar>y - x\<bar> \<le> 1" using 1(2) [of 0] by simp
  moreover have "slope_ok (y # ys)"
  proof (rule 1(1))
    fix i assume "Suc i < length (y # ys)"
    then show "\<bar>(y # ys) ! Suc i - (y # ys) ! i\<bar> \<le> 1" using 1(2) [of "Suc i"] by simp
  qed
  ultimately show ?case by simp
qed simp_all

lemma length_ComputeNumBits [simp]: "length (ComputeNumBits s) = length (buffer s)"
  by (simp add: ComputeNumBits_alt)

lemma ComputeNumBits_slope:
  "Suc i < length (buffer s) \<Longrightarrow> \<bar>ComputeNumBits s ! Suc i - ComputeNumBits s ! i\<bar> \<le> 1"
  using ComputeNumBits_admissible [of s] slope_ok_nth [of "ComputeNumBits s" i]
  by (simp add: admissible_def)

lemma ComputeNumBits_lower:
  "i < length (buffer s) \<Longrightarrow> num_bits (buffer s ! i) \<le> ComputeNumBits s ! i"
  using ComputeNumBits_admissible [of s] by (simp add: admissible_def list_all2_conv_all_nth)

lemma ComputeNumBits_nonneg: "i < length (buffer s) \<Longrightarrow> 0 \<le> ComputeNumBits s ! i"
  using ComputeNumBits_lower [of i s] num_bits_nonneg [of "buffer s ! i"] by linarith

lemma ComputeNumBits_seed:
  "buffer s \<noteq> [] \<Longrightarrow> most_recent_num_bits s - 1 \<le> ComputeNumBits s ! 0"
  using ComputeNumBits_admissible [of s]
  by (cases "ComputeNumBits s") (auto simp: admissible_def)

lemma slope_ok_replicate: "slope_ok (replicate n x)"
  by (rule slope_okI) simp

lemma ComputeNumBits_upper:
  assumes "most_recent_num_bits s \<le> 33" and "i < length (buffer s)"
  shows "ComputeNumBits s ! i \<le> 32"
proof -
  let ?u = "replicate (length (buffer s)) (32::int)"
  have 1: "list_all2 (\<lambda>v x. num_bits v \<le> x) (buffer s) ?u"
    by (simp add: list_all2_conv_all_nth)
  have 3: "case ?u of [] \<Rightarrow> True | x # _ \<Rightarrow> most_recent_num_bits s - 1 \<le> x"
    using assms(1) by (cases "length (buffer s)") simp_all
  have "admissible (most_recent_num_bits s) (buffer s) ?u"
    unfolding admissible_def using 1 3 slope_ok_replicate by blast
  from ComputeNumBits_least [OF this] show ?thesis
    using assms(2) by (simp add: list_all2_conv_all_nth)
qed


lemma length_loop_calls [simp]:
  "length (loop_calls p c ns vs) = min (length ns) (length vs)"
  by (induction p c ns vs rule: loop_calls.induct) simp_all

lemma loop_calls_nth:
  "i < length ns \<Longrightarrow> i < length vs \<Longrightarrow>
   loop_calls p c ns vs ! i = ((p # c # ns) ! i, (c # ns) ! i, ns ! i, vs ! i)"
proof (induction p c ns vs arbitrary: i rule: loop_calls.induct)
  case (1 p c n nexts v vs)
  then show ?case by (cases i) simp_all
qed simp_all

lemma loop_calls_hd:
  "loop_calls p c ns vs = (p', c', n', v') # cs \<Longrightarrow> p' = p \<and> c' = c"
  by (cases ns; cases vs) simp_all

lemma chained_loop_calls: "chained (loop_calls p c ns vs)"
proof (induction p c ns vs rule: loop_calls.induct)
  case (1 p c n nexts v vs)
  then show ?case
    by (cases "loop_calls c n nexts vs") (auto dest: loop_calls_hd)
qed simp_all

lemma length_FlushSome_calls:
  "n \<le> length (buffer s) \<Longrightarrow> length (FlushSome_calls n s) = n"
proof -
  assume n: "n \<le> length (buffer s)"
  show ?thesis
  proof (cases "buffer s")
    case Nil
    then show ?thesis using n by (simp add: FlushSome_calls_def)
  next
    case (Cons v vs)
    then have "ComputeNumBits s \<noteq> []" by (metis length_ComputeNumBits length_0_conv list.distinct(1))
    then show ?thesis using n by (auto simp: FlushSome_calls_def Let_def)
  qed
qed

lemma FlushSome_calls_nth:
  assumes n: "n \<le> length (buffer s)" and i: "i < n"
  shows "FlushSome_calls n s ! i =
     (if i = 0 then (if started s then most_recent_num_bits s else ComputeNumBits s ! 0)
      else ComputeNumBits s ! (i - 1),
      ComputeNumBits s ! i,
      if Suc i < length (buffer s) then ComputeNumBits s ! Suc i else ComputeNumBits s ! i,
      buffer s ! i)"
proof -
  let ?W = "ComputeNumBits s"
  let ?N = "length (buffer s)"
  define W' where "W' = (if n = ?N then ?W @ [last ?W] else ?W)"
  have N: "0 < ?N" "i < ?N" using n i by linarith+
  then have Wne: "?W \<noteq> []" by (metis length_ComputeNumBits length_0_conv less_numeral_extra(3))
  have lenW': "length W' = (if n = ?N then Suc ?N else ?N)" by (simp add: W'_def)
  have W'ne: "W' \<noteq> []" using Wne by (simp add: W'_def)
  have W'nth: "\<And>j. j < ?N \<Longrightarrow> W' ! j = ?W ! j" by (simp add: W'_def nth_append)
  have W'last: "n = ?N \<Longrightarrow> W' ! ?N = ?W ! (?N - 1)"
    using Wne by (simp add: W'_def nth_append last_conv_nth)
  have Si: "Suc i < length W'" using lenW' i n by auto
  have tl: "take n (tl W') ! i = W' ! Suc i" using i Si by (simp add: nth_tl)
  have cons: "W' ! 0 # tl W' = W'" using W'ne by (cases W') simp_all
  have pcg: "(W' ! 0 # take n (tl W')) ! j = W' ! j" if "j \<le> i" for j
  proof (cases j)
    case 0 then show ?thesis by simp
  next
    case (Suc k)
    then have "take n (tl W') ! k = W' ! Suc k" using i Si that by (simp add: nth_tl)
    then show ?thesis using Suc by simp
  qed
  have nx: "W' ! Suc i = (if Suc i < ?N then ?W ! Suc i else ?W ! i)"
  proof (cases "Suc i < ?N")
    case True then show ?thesis using W'nth by simp
  next
    case False
    then have e: "Suc i = ?N" "n = ?N" using i n by simp_all
    then show ?thesis using W'last by (metis diff_Suc_1 less_irrefl_nat)
  qed
  have calls: "FlushSome_calls n s =
      loop_calls (if started s then most_recent_num_bits s else W' ! 0) (W' ! 0)
        (take n (tl W')) (take n (buffer s))"
    by (simp add: FlushSome_calls_def W'_def Let_def)
  have li: "i < length (take n (tl W'))" "i < length (take n (buffer s))"
    using i n Si by simp_all
  have c1: "(W' ! 0 # take n (tl W')) ! i = ?W ! i" using pcg [of i] W'nth N by simp
  have p1: "((if started s then most_recent_num_bits s else W' ! 0) # W' ! 0 # take n (tl W')) ! i
     = (if i = 0 then (if started s then most_recent_num_bits s else ?W ! 0) else ?W ! (i - 1))"
  proof (cases i)
    case 0 then show ?thesis using W'nth N by simp
  next
    case (Suc k)
    then have "(W' ! 0 # take n (tl W')) ! k = ?W ! k" using pcg [of k] W'nth N by simp
    then show ?thesis using Suc by simp
  qed
  have v1: "take n (buffer s) ! i = buffer s ! i" using i by simp
  show ?thesis
    unfolding calls loop_calls_nth [OF li] p1 c1 tl nx v1 ..
qed


lemma ComputeNumBits_rec:
  assumes "i < length (buffer s)"
  shows "ComputeNumBits s ! i =
     max (forward_pass (most_recent_num_bits s) (buffer s) ! i)
         ((if Suc i < length (buffer s) then ComputeNumBits s ! Suc i else 0) - 1)"
  using from_right_nth_rec [of i "forward_pass (most_recent_num_bits s) (buffer s)" 0] assms
  by (simp add: ComputeNumBits_alt)

lemma ComputeNumBits_ge_forward:
  "i < length (buffer s) \<Longrightarrow>
   forward_pass (most_recent_num_bits s) (buffer s) ! i \<le> ComputeNumBits s ! i"
  using from_right_upper [of "forward_pass (most_recent_num_bits s) (buffer s)" 0]
  by (simp add: ComputeNumBits_alt list_all2_conv_all_nth)

text \<open>A width above the bit width of its value is forced by a larger neighbour.\<close>

lemma width_forced:
  assumes st: "started s \<or> most_recent_num_bits s \<le> 1"
    and i: "i < length (buffer s)"
    and gt: "num_bits (buffer s ! i) < ComputeNumBits s ! i"
  shows "ComputeNumBits s ! i <
           (if i = 0 then (if started s then most_recent_num_bits s else ComputeNumBits s ! 0)
            else ComputeNumBits s ! (i - 1))
         \<or> (Suc i < length (buffer s) \<and> ComputeNumBits s ! i < ComputeNumBits s ! Suc i)"
proof -
  let ?W = "ComputeNumBits s" and ?F = "forward_pass (most_recent_num_bits s) (buffer s)"
  let ?N = "length (buffer s)"
  show ?thesis
  proof (cases "?F ! i < ?W ! i")
    case True
    then have "?W ! i = (if Suc i < ?N then ?W ! Suc i else 0) - 1"
      using ComputeNumBits_rec [OF i] by (simp add: max_def split: if_splits)
    moreover have "0 \<le> ?W ! i" using ComputeNumBits_nonneg [OF i] .
    ultimately show ?thesis by (auto split: if_splits)
  next
    case False
    then have eq: "?W ! i = ?F ! i" using ComputeNumBits_ge_forward [OF i] by simp
    show ?thesis
    proof (cases i)
      case 0
      have ne: "buffer s \<noteq> []" using i by auto
      have "?F ! 0 = max (num_bits (buffer s ! 0)) (most_recent_num_bits s - 1)"
        using forward_pass_0 [OF ne] .
      then have m: "?W ! 0 = most_recent_num_bits s - 1" using gt eq 0 by (simp add: max_def split: if_splits)
      have "started s"
      proof (rule ccontr)
        assume "\<not> started s"
        then have "most_recent_num_bits s \<le> 1" using st by simp
        then have "?W ! 0 \<le> 0" using m by simp
        then show False using gt 0 num_bits_nonneg [of "buffer s ! 0"] by simp
      qed
      then show ?thesis using 0 m by simp
    next
      case (Suc k)
      then have k: "Suc k < ?N" "k < ?N" using i by simp_all
      have "?F ! Suc k = max (num_bits (buffer s ! Suc k)) (?F ! k - 1)"
        using forward_pass_Suc [OF k(1)] .
      then have "?W ! i = ?F ! k - 1" using gt eq Suc by (simp add: max_def split: if_splits)
      moreover have "?F ! k \<le> ?W ! k" using ComputeNumBits_ge_forward [OF k(2)] .
      ultimately show ?thesis using Suc by simp
    qed
  qed
qed

lemma FlushSome_calls_ok:
  assumes st: "started s \<or> most_recent_num_bits s \<le> 1"
    and mr: "most_recent_num_bits s \<le> 33"
    and n: "n \<le> length (buffer s)" and i: "i < n"
  shows "call_ok (FlushSome_calls n s ! i)"
proof -
  let ?W = "ComputeNumBits s"
  have iN: "i < length (buffer s)" using n i by simp
  have r: "0 \<le> ?W ! i" "?W ! i \<le> 32"
    using ComputeNumBits_nonneg [OF iN] ComputeNumBits_upper [OF mr iN] by simp_all
  have lo: "num_bits (buffer s ! i) \<le> ?W ! i" using ComputeNumBits_lower [OF iN] .
  let ?p = "if i = 0 then (if started s then most_recent_num_bits s else ?W ! 0) else ?W ! (i - 1)"
  let ?nx = "if Suc i < length (buffer s) then ?W ! Suc i else ?W ! i"
  have nxr: "0 \<le> ?nx" "?nx \<le> 32" "\<bar>?nx - ?W ! i\<bar> \<le> 1"
    using r ComputeNumBits_nonneg [of "Suc i" s] ComputeNumBits_upper [OF mr, of "Suc i"]
      ComputeNumBits_slope [of i s] by (auto split: if_splits)
  have tbr: "top_bit_redundant ?p (?W ! i) ?nx \<longrightarrow> num_bits (buffer s ! i) = ?W ! i"
  proof (rule impI, rule ccontr)
    assume t: "top_bit_redundant ?p (?W ! i) ?nx" and "num_bits (buffer s ! i) \<noteq> ?W ! i"
    then have "num_bits (buffer s ! i) < ?W ! i" using lo by simp
    from width_forced [OF st iN this] t show False
      by (auto simp: top_bit_redundant_def split: if_splits)
  qed
  show ?thesis
    unfolding FlushSome_calls_nth [OF n i] call_ok_def using r lo nxr tbr by simp
qed

lemma FlushSome_calls_all_ok:
  assumes "started s \<or> most_recent_num_bits s \<le> 1" and "most_recent_num_bits s \<le> 33"
    and "n \<le> length (buffer s)"
  shows "list_all call_ok (FlushSome_calls n s)"
  unfolding list_all_length length_FlushSome_calls [OF assms(3)]
  using FlushSome_calls_ok [OF assms] by blast

lemma write_prelude_eq: "write_prelude w bs = bs @ prelude_code w"
  by (simp add: write_prelude_def prelude_code_def BitStream_Write_def Let_def upt_rec)

lemma FlushSome_eq:
  assumes st: "started s \<or> most_recent_num_bits s \<le> 1"
    and mr: "most_recent_num_bits s \<le> 33"
    and n: "0 < n" "n \<le> length (buffer s)"
  shows "FlushSome n s =
     Inr (s\<lparr> buffer := drop n (buffer s),
              most_recent_num_bits := ComputeNumBits s ! (n - 1),
              bit_stream := bit_stream s
                 @ (if started s then [] else prelude_code (ComputeNumBits s ! 0))
                 @ calls_bits (num_pending_zeros s) (FlushSome_calls n s),
              started := True,
              num_pending_zeros := calls_pending (num_pending_zeros s) (FlushSome_calls n s) \<rparr>)"
proof -
  let ?W = "ComputeNumBits s"
  let ?W' = "if n = length (buffer s) then ?W @ [last ?W] else ?W"
  have ne: "length (buffer s) \<noteq> 0" using n by linarith
  then have Wne: "?W \<noteq> []" by (metis length_ComputeNumBits length_0_conv)
  have w0: "?W' ! 0 = ?W ! 0" using ne by (simp add: nth_append)
  have "n - 1 < length (buffer s)" using n by linarith
  then have wl: "?W' ! (n - 1) = ?W ! (n - 1)" by (auto simp: nth_append)
  define s1 where "s1 = (if \<not> started s
        then s\<lparr> bit_stream := write_prelude (?W' ! 0) (bit_stream s), started := True,
                most_recent_num_bits := ?W' ! 0 \<rparr>
        else s)"
  have loop: "FlushSome_loop (most_recent_num_bits s1) (?W' ! 0) (take n (tl ?W'))
         (take n (buffer s)) s1 = WriteCode_all (FlushSome_calls n s) s1"
    unfolding FlushSome_loop_calls
    by (simp add: FlushSome_calls_def Let_def s1_def)
  have ok: "list_all call_ok (FlushSome_calls n s)"
    using FlushSome_calls_all_ok [OF st mr n(2)] .
  have wl': "(?W @ [y]) ! (length (buffer s) - Suc 0) = ?W ! (length (buffer s) - Suc 0)" for y
    using ne by (simp add: nth_append)
  show ?thesis
  proof (cases "started s")
    case True
    then have s1: "s1 = s" by (simp add: s1_def)
    have "FlushSome n s = Inr (s\<lparr> bit_stream := bit_stream s
                 @ calls_bits (num_pending_zeros s) (FlushSome_calls n s),
              num_pending_zeros := calls_pending (num_pending_zeros s) (FlushSome_calls n s),
              most_recent_num_bits := ComputeNumBits s ! (n - 1),
              buffer := drop n (buffer s) \<rparr>)"
      unfolding FlushSome_def Let_def
      using n ne True loop [unfolded s1] WriteCode_all_eq [OF ok, of s]
      by (auto simp: w0 wl')
    also have "\<dots> = Inr (s\<lparr> buffer := drop n (buffer s),
              most_recent_num_bits := ComputeNumBits s ! (n - 1),
              bit_stream := bit_stream s
                 @ (if started s then [] else prelude_code (ComputeNumBits s ! 0))
                 @ calls_bits (num_pending_zeros s) (FlushSome_calls n s),
              started := True,
              num_pending_zeros := calls_pending (num_pending_zeros s) (FlushSome_calls n s) \<rparr>)"
      using True by simp
    finally show ?thesis .
  next
    case False
    show ?thesis
      unfolding FlushSome_def Let_def
      using n ne False loop [unfolded s1_def] WriteCode_all_eq [OF ok, of s1]
      by (auto simp: s1_def w0 wl' write_prelude_eq)
  qed
qed

section \<open>The elided top bit\<close>

lemma Read_written_int:
  "0 \<le> n \<Longrightarrow>
   ReverseBitStream_Read n (map (bit v) [0..<nat n] @ rest) = Some (take_bit (nat n) v, rest)"
  using Read_written [of "nat n" v rest] by simp

lemma restore_top_bit:
  assumes "num_bits v = int (Suc h)"
  shows "take_bit h (v XOR 2 ^ h) OR 2 ^ h = v"
proof (rule bit_eqI)
  fix n
  assume "possible_bit TYPE(u32) n"
  then have n: "n < 32" by simp
  have v0: "v \<noteq> 0" using assms by auto
  have top: "bit v h" using bit_top_num_bits [OF v0] assms by simp
  have above: "h < n \<Longrightarrow> \<not> bit v n"
    using not_bit_above_num_bits [of v n] assms by simp
  show "bit (take_bit h (v XOR 2 ^ h) OR 2 ^ h) n = bit v n"
    using n top above
    by (cases "n < h"; cases "n = h")
       (auto simp: bit_or_iff bit_take_bit_iff bit_xor_iff bit_exp_iff)
qed

lemma FlushSome_calls_tbr:
  assumes n: "n \<le> length (buffer s)" and st: "started s \<or> most_recent_num_bits s \<le> 1"
    and mem: "(p, c, nx, v) \<in> set (FlushSome_calls n s)" and t: "top_bit_redundant p c nx"
  shows "num_bits v = c"
proof -
  let ?W = "ComputeNumBits s"
  obtain i where i: "i < n" and c: "FlushSome_calls n s ! i = (p, c, nx, v)"
    using mem length_FlushSome_calls [OF n] by (auto simp: in_set_conv_nth)
  have iN: "i < length (buffer s)" using n i by simp
  have eqs: "p = (if i = 0 then (if started s then most_recent_num_bits s else ?W ! 0) else ?W ! (i - 1))"
      "c = ?W ! i" "nx = (if Suc i < length (buffer s) then ?W ! Suc i else ?W ! i)"
      "v = buffer s ! i"
    using c unfolding FlushSome_calls_nth [OF n i] by simp_all
  show ?thesis
  proof (rule ccontr)
    assume "num_bits v \<noteq> c"
    then have "num_bits (buffer s ! i) < ?W ! i"
      using ComputeNumBits_lower [OF iN] eqs by simp
    from width_forced [OF st iN this] t show False
      unfolding eqs by (auto simp: top_bit_redundant_def split: if_splits)
  qed
qed

lemma FlushSome_WriteCode_all:
  assumes "0 < n" and "n \<le> length (buffer s)"
  shows "FlushSome n s =
     (case WriteCode_all (FlushSome_calls n s)
             (if started s then s
              else s\<lparr> bit_stream := write_prelude (ComputeNumBits s ! 0) (bit_stream s),
                      started := True,
                      most_recent_num_bits := ComputeNumBits s ! 0 \<rparr>) of
        Inl e \<Rightarrow> Inl e
      | Inr s2 \<Rightarrow> Inr (s2\<lparr> most_recent_num_bits := ComputeNumBits s ! (n - 1),
                           buffer := drop n (buffer s) \<rparr>))"
proof -
  let ?W = "ComputeNumBits s"
  let ?W' = "if n = length (buffer s) then ?W @ [last ?W] else ?W"
  have ne: "length (buffer s) \<noteq> 0" using assms by linarith
  have w0: "?W' ! 0 = ?W ! 0" using ne by (simp add: nth_append)
  have "n - 1 < length (buffer s)" using assms by linarith
  then have wl: "?W' ! (n - 1) = ?W ! (n - 1)" by (auto simp: nth_append)
  show ?thesis
    unfolding FlushSome_def FlushSome_calls_def Let_def FlushSome_loop_calls w0 wl
    using assms ne by (cases "started s") simp_all
qed

section \<open>What the decoder reads\<close>

lemma read_all_append:
  "read_all x (m + n) d =
     (case read_all x m d of
        None \<Rightarrow> None
      | Some (vs, d') \<Rightarrow>
          (case read_all x n d' of None \<Rightarrow> None | Some (ws, d'') \<Rightarrow> Some (vs @ ws, d'')))"
  by (induction m arbitrary: d) (auto split: option.splits)

lemma Read_one_bit: "ReverseBitStream_Read 1 (b # r) = Some (of_bool b, r)"
  by (simp add: ReverseBitStream_Read_def)

lemma Read_zero_bits: "ReverseBitStream_Read 0 r = Some (0, r)"
  by (simp add: ReverseBitStream_Read_def)

lemma read_unary_code:
  "0 \<le> n \<Longrightarrow> n + int j \<le> 31 \<Longrightarrow>
   read_unary n (replicate j False @ True # r) = Some (n + int j, r)"
proof (induction j arbitrary: n)
  case 0
  then show ?case by (simp add: read_unary.simps [of n] Read_one_bit)
next
  case (Suc j)
  have "read_unary (n + 1) (replicate j False @ True # r) = Some (n + 1 + int j, r)"
    using Suc.prems by (intro Suc.IH) simp_all
  then show ?case using Suc.prems
    by (simp add: read_unary.simps [of n] Read_one_bit)
qed

lemma split_top_bit:
  assumes "num_bits k = int (Suc h)"
  shows "2 ^ h + take_bit h k = (k::u32)"
proof -
  have "2 ^ h AND take_bit h k = 0"
    by (rule bit_eqI) (auto simp: bit_and_iff bit_exp_iff bit_take_bit_iff)
  then have "2 ^ h + take_bit h k = 2 ^ h OR take_bit h k"
    by (rule disjunctive_add_eq_or)
  also have "\<dots> = k"
  proof (rule bit_eqI)
    fix n
    assume "possible_bit TYPE(u32) n"
    then have n: "n < 32" by simp
    have k0: "k \<noteq> 0" using assms by auto
    have top: "bit k h" using bit_top_num_bits [OF k0] assms by simp
    have above: "h < n \<Longrightarrow> \<not> bit k n"
      using not_bit_above_num_bits [of k n] assms by simp
    show "bit (2 ^ h OR take_bit h k) n = bit k n"
      using n top above
      by (cases "n < h"; cases "n = h")
         (auto simp: bit_or_iff bit_take_bit_iff bit_exp_iff)
  qed
  finally show ?thesis .
qed

lemma take_bit_or_top:
  assumes "num_bits v = int (Suc h)"
  shows "take_bit h v OR 2 ^ h = (v::u32)"
proof -
  have "2 ^ h AND take_bit h v = 0"
    by (rule bit_eqI) (auto simp: bit_and_iff bit_exp_iff bit_take_bit_iff)
  then have "2 ^ h + take_bit h v = 2 ^ h OR take_bit h v"
    by (rule disjunctive_add_eq_or)
  then show ?thesis using split_top_bit [OF assms] by (simp add: or.commute)
qed

lemma wrap_int_id: "- (2 ^ 31) \<le> n \<Longrightarrow> n < 2 ^ 31 \<Longrightarrow> wrap_int n = n"
  unfolding wrap_int_def sint_sbintrunc'
  by (simp add: signed_take_bit_int_eq_self)

lemma int_of_u32_small:
  assumes "unat k < 2 ^ 31"
  shows "int_of_u32 k = int (unat k)"
proof -
  have "int (unat k) < int (2 ^ 31)" using assms by (simp only: of_nat_less_iff)
  then have "int (unat k) < 2 ^ 31" by simp
  then have u: "uint k < 2 ^ 31" by (simp only: uint_nat)
  have "- (2 ^ 31) \<le> uint k" by (rule order_trans [OF _ uint_ge_0]) simp
  then have "signed_take_bit 31 (uint k) = uint k"
    using u by (rule signed_take_bit_int_eq_self)
  moreover have "sint k = signed_take_bit 31 (uint k)" by (simp only: sint_uint) simp
  ultimately show ?thesis by (simp add: int_of_u32_def)
qed

lemma Read_nonzero_width:
  assumes ok: "call_ok (p, c, n, v)" and c: "c \<noteq> 0"
  shows "ReverseUintStream_Read x
           \<lparr> bit_reader = delta_code (n - c) @ value_code p c n v @ r,
             prev_num_bits = p, cur_num_bits = c, zero_runlength = z \<rparr>
         = Some (v, \<lparr> bit_reader = r, prev_num_bits = c, cur_num_bits = n, zero_runlength = z \<rparr>)"
proof -
  let ?d = "\<lparr> bit_reader = delta_code (n - c) @ value_code p c n v @ r,
             prev_num_bits = p, cur_num_bits = c, zero_runlength = z \<rparr>"
  have r: "0 < c" "c \<le> 32" "0 \<le> n" "n \<le> 32" "\<bar>n - c\<bar> \<le> 1" "num_bits v \<le> c"
    using ok c by (simp_all add: call_ok_def)
  have nx: "next_num_bits_of x ?d = Some (n, ?d\<lparr> bit_reader := value_code p c n v @ r \<rparr>)"
  proof -
    consider "n - c = 1" | "n - c = - 1" | "n - c = 0" using r(5) by linarith
    then show ?thesis
    proof cases
      case 1
      then have "n = c + 1" by simp
      then show ?thesis using r c
        by (simp add: next_num_bits_of_def delta_code_def Read_one_bit)
    next
      case 2
      then have "n = c - 1" by simp
      then show ?thesis using r c
        by (simp add: next_num_bits_of_def delta_code_def Read_one_bit)
    next
      case 3
      then show ?thesis using r c by (simp add: next_num_bits_of_def delta_code_def Read_one_bit)
    qed
  qed
  show ?thesis
  proof (cases "top_bit_redundant p c n")
    case True
    then have nb: "num_bits v = int (Suc (nat (c - 1)))" using ok r by (simp add: call_ok_def)
    have "ReverseBitStream_Read (c - 1) (value_code p c n v @ r)
        = Some (take_bit (nat (c - 1)) v, r)"
      using True r Read_written_int [of "c - 1" v r] by (simp add: value_code_def)
    then show ?thesis
      using True take_bit_or_top [OF nb]
      by (simp add: ReverseUintStream_Read_def nx)
  next
    case False
    have "ReverseBitStream_Read c (value_code p c n v @ r) = Some (take_bit (nat c) v, r)"
      using False r Read_written_int [of c v r] by (simp add: value_code_def)
    moreover have "take_bit (nat c) v = v" using take_bit_num_bits [of v "nat c"] r by simp
    ultimately show ?thesis
      using False by (simp add: ReverseUintStream_Read_def nx)
  qed
qed

lemma Read_run_first:
  assumes k0: "k \<noteq> 0" and small: "unat k < 2 ^ 31"
  shows "ReverseUintStream_Read x
           \<lparr> bit_reader = run_code k @ r, prev_num_bits = p, cur_num_bits = 0,
             zero_runlength = - 1 \<rparr>
         = Some (0, \<lparr> bit_reader = r, prev_num_bits = 0,
                       cur_num_bits = (if k = 1 then 1 else 0),
                       zero_runlength = int (unat k) - 2 \<rparr>)"
proof -
  define h where "h = nat (num_bits k - 1)"
  have nb: "num_bits k = int (Suc h)" using num_bits_pos [OF k0] by (simp add: h_def)
  have h31: "int h \<le> 31" using num_bits_le_32 [of k] nb by simp
  have rc: "run_code k = replicate h False @ True # map (bit k) [0..<h]"
    by (simp add: run_code_def h_def)
  have un: "read_unary 0 (run_code k @ r) = Some (int h, map (bit k) [0..<h] @ r)"
    using read_unary_code [of 0 h "map (bit k) [0..<h] @ r"] h31 by (simp add: rc)
  have fld: "ReverseBitStream_Read (int h) (map (bit k) [0..<h] @ r) = Some (take_bit h k, r)"
    by (rule Read_written)
  have val: "push_bit (nat (int h)) 1 + take_bit h k = k"
    using split_top_bit [OF nb] by (simp add: push_bit_eq_mult)
  have i: "int_of_u32 k = int (unat k)" using int_of_u32_small [OF small] .
  have pos: "0 < unat k" using k0 by (simp add: unat_gt_0)
  have w: "wrap_int (int (unat k) - 2) = int (unat k) - 2"
  proof (rule wrap_int_id)
    show "- (2 ^ 31) \<le> int (unat k) - 2" using pos by simp
    have "int (unat k) < int (2 ^ 31)" using small by (simp only: of_nat_less_iff)
    then show "int (unat k) - 2 < 2 ^ 31" by simp
  qed
  have "int (unat k) = 1 \<longleftrightarrow> unat k = 1" by (metis of_nat_1 of_nat_eq_iff)
  also have "\<dots> \<longleftrightarrow> k = 1" by (simp add: word_unat_eq_iff [of k 1])
  finally have one: "int (unat k) = 1 \<longleftrightarrow> k = 1" .
  have nx: "next_num_bits_of x
           \<lparr> bit_reader = run_code k @ r, prev_num_bits = p, cur_num_bits = 0,
             zero_runlength = - 1 \<rparr>
        = Some (if k = 1 then 1 else 0,
               \<lparr> bit_reader = r, prev_num_bits = p, cur_num_bits = 0,
                 zero_runlength = int (unat k) - 2 \<rparr>)"
  proof -
    have val': "2 ^ h + take_bit h k = k" using split_top_bit [OF nb] .
    have i': "int_of_u32 k = uint k" using i by simp
    have w': "wrap_int (uint k - 2) = uint k - 2" using w by simp
    have one': "uint k = 1 \<longleftrightarrow> k = 1" using one by simp
    show ?thesis
      by (simp add: next_num_bits_of_def un fld val' i' w' one' Let_def)
  qed
  show ?thesis
    by (simp add: ReverseUintStream_Read_def nx top_bit_redundant_def Read_zero_bits)
qed

lemma Read_in_run:
  assumes "0 \<le> z" and "z < 2 ^ 31"
  shows "ReverseUintStream_Read x
           \<lparr> bit_reader = r, prev_num_bits = p, cur_num_bits = 0, zero_runlength = z \<rparr>
         = Some (0, \<lparr> bit_reader = r, prev_num_bits = 0,
                       cur_num_bits = (if z = 0 then 1 else 0), zero_runlength = z - 1 \<rparr>)"
proof -
  have w: "wrap_int (z - 1) = z - 1"
    using assms by (intro wrap_int_id) simp_all
  have nx: "next_num_bits_of x
           \<lparr> bit_reader = r, prev_num_bits = p, cur_num_bits = 0, zero_runlength = z \<rparr>
        = Some (if z = 0 then 1 else 0,
               \<lparr> bit_reader = r, prev_num_bits = p, cur_num_bits = 0, zero_runlength = z - 1 \<rparr>)"
    using assms(1) by (simp add: next_num_bits_of_def w)
  show ?thesis
    by (simp add: ReverseUintStream_Read_def nx top_bit_redundant_def Read_zero_bits)
qed

lemma read_all_in_run:
  "int j < 2 ^ 31 \<Longrightarrow>
   read_all x (Suc j)
     \<lparr> bit_reader = r, prev_num_bits = p, cur_num_bits = 0, zero_runlength = int j \<rparr>
   = Some (replicate (Suc j) 0,
       \<lparr> bit_reader = r, prev_num_bits = 0, cur_num_bits = 1, zero_runlength = - 1 \<rparr>)"
proof (induction j arbitrary: p)
  case 0
  then show ?case using Read_in_run [of 0 x r p] by simp
next
  case (Suc j)
  have "int j < 2 ^ 31" using Suc.prems by simp
  from Suc.IH [OF this, of 0] Read_in_run [of "int (Suc j)" x r p] Suc.prems
  show ?case by simp
qed

lemma read_all_run:
  assumes k0: "k \<noteq> 0" and small: "unat k < 2 ^ 31"
  shows "read_all x (unat k)
     \<lparr> bit_reader = run_code k @ r, prev_num_bits = p, cur_num_bits = 0, zero_runlength = - 1 \<rparr>
   = Some (replicate (unat k) 0,
       \<lparr> bit_reader = r, prev_num_bits = 0, cur_num_bits = 1, zero_runlength = - 1 \<rparr>)"
proof -
  obtain m where m: "unat k = Suc m" using k0 by (metis not0_implies_Suc unat_eq_0)
  show ?thesis
  proof (cases m)
    case 0
    then have "k = 1" using m by (simp add: word_unat_eq_iff [of k 1])
    then show ?thesis using Read_run_first [OF k0 small, of x r p] by simp
  next
    case (Suc j)
    then have k1: "k \<noteq> 1" using m by (simp add: word_unat_eq_iff [of k 1])
    have "int (unat k) < int (2 ^ 31)" using small by (simp only: of_nat_less_iff)
    then have j: "int j < 2 ^ 31" using m Suc by simp
    have z: "int (unat k) - 2 = int j" using m Suc by simp
    show ?thesis
      using Read_run_first [OF k0 small, of x r p] read_all_in_run [OF j, of x r 0] k1 z m Suc
      by simp
  qed
qed

subsection \<open>Chains of calls\<close>

lemma chained_nth:
  "chained cs \<Longrightarrow> Suc i < length cs \<Longrightarrow>
   call_prev (cs ! Suc i) = call_cur (cs ! i) \<and> call_cur (cs ! Suc i) = call_next (cs ! i)"
proof (induction cs arbitrary: i rule: chained.induct)
  case (1 p c n v p' c' n' v' cs)
  show ?case
  proof (cases i)
    case 0
    then show ?thesis using 1(2) by simp
  next
    case (Suc k)
    then show ?thesis using 1(1) [of k] 1(2,3) by auto
  qed
qed simp_all

lemma chainedI:
  "(\<And>i. Suc i < length cs \<Longrightarrow>
      call_prev (cs ! Suc i) = call_cur (cs ! i) \<and> call_cur (cs ! Suc i) = call_next (cs ! i))
   \<Longrightarrow> chained cs"
proof (induction cs rule: chained.induct)
  case (1 p c n v p' c' n' v' cs)
  have "p' = c \<and> c' = n" using 1(2) [of 0] by simp
  moreover have "chained ((p', c', n', v') # cs)"
  proof (rule 1(1))
    fix i assume "Suc i < length ((p', c', n', v') # cs)"
    then show "call_prev (((p', c', n', v') # cs) ! Suc i) = call_cur (((p', c', n', v') # cs) ! i) \<and>
         call_cur (((p', c', n', v') # cs) ! Suc i) = call_next (((p', c', n', v') # cs) ! i)"
      using 1(2) [of "Suc i"] by simp
  qed
  ultimately show ?case by simp
qed simp_all

lemma chained_append_right: "chained (xs @ ys) \<Longrightarrow> chained ys"
proof (rule chainedI)
  fix i assume c: "chained (xs @ ys)" and i: "Suc i < length ys"
  from chained_nth [OF c, of "length xs + i"] i
  show "call_prev (ys ! Suc i) = call_cur (ys ! i) \<and> call_cur (ys ! Suc i) = call_next (ys ! i)"
    by (simp add: nth_append)
qed

lemma chained_link:
  assumes "chained (xs @ ys)" and "xs \<noteq> []" and "ys \<noteq> []"
  shows "call_prev (hd ys) = call_cur (last xs) \<and> call_cur (hd ys) = call_next (last xs)"
proof -
  obtain m where m: "length xs = Suc m" using assms(2) by (cases xs) auto
  have "Suc m < length (xs @ ys)" using m assms(3) by (cases ys) auto
  from chained_nth [OF assms(1) this] show ?thesis
    using m assms(2,3) by (simp add: nth_append last_conv_nth hd_conv_nth)
qed

lemma chained_appendI:
  assumes "chained xs" and "chained ys"
    and "xs \<noteq> [] \<Longrightarrow> ys \<noteq> [] \<Longrightarrow>
         call_prev (hd ys) = call_cur (last xs) \<and> call_cur (hd ys) = call_next (last xs)"
  shows "chained (xs @ ys)"
proof (rule chainedI)
  fix i assume i: "Suc i < length (xs @ ys)"
  consider "Suc i < length xs" | "Suc i = length xs" | "length xs \<le> i" by linarith
  then show "call_prev ((xs @ ys) ! Suc i) = call_cur ((xs @ ys) ! i) \<and>
       call_cur ((xs @ ys) ! Suc i) = call_next ((xs @ ys) ! i)"
  proof cases
    case 1
    then show ?thesis using chained_nth [OF assms(1) 1] by (simp add: nth_append)
  next
    case 2
    then have ne: "xs \<noteq> []" "ys \<noteq> []" using i by auto
    have l: "length xs - Suc 0 = i" using 2 by simp
    from assms(3) [OF ne] 2 ne show ?thesis
      by (simp add: nth_append last_conv_nth hd_conv_nth l)
  next
    case 3
    then have "Suc (i - length xs) < length ys" using i by simp
    from chained_nth [OF assms(2) this] 3 show ?thesis
      by (simp add: nth_append Suc_diff_le)
  qed
qed

lemma calls_zeros:
  "list_all (\<lambda>a. call_cur a = 0) zs \<Longrightarrow>
   calls_bits k (zs @ cs) = calls_bits (k + of_nat (length zs)) cs \<and>
   calls_pending k (zs @ cs) = calls_pending (k + of_nat (length zs)) cs"
proof (induction zs arbitrary: k)
  case Nil
  then show ?case by simp
next
  case (Cons a zs)
  obtain p c n v where a: "a = (p, c, n, v)" by (cases a)
  then have "c = 0" using Cons.prems by simp
  then show ?case using Cons a by (simp add: ac_simps)
qed

lemma run_split:
  assumes "K \<noteq> 0" and "cs = [] \<or> call_cur (hd cs) \<noteq> 0"
  shows "calls_bits K cs @ final_code (calls_pending K cs) @ r
       = run_code K @ calls_bits 0 cs @ final_code (calls_pending 0 cs) @ r"
proof (cases cs)
  case Nil
  then show ?thesis using assms(1) by (simp add: final_code_def)
next
  case (Cons a cs')
  obtain p c n v where a: "a = (p, c, n, v)" by (cases a)
  then have "c \<noteq> 0" using assms(2) Cons by simp
  then show ?thesis using assms(1) Cons a by (simp add: final_code_def)
qed

subsection \<open>Decoding the bits of a chain of calls\<close>

lemma zero_width_value: "call_ok a \<Longrightarrow> call_cur a = 0 \<Longrightarrow> call_value a = 0"
  by (cases a) (simp add: call_ok_def)

lemma zero_width_next: "call_ok a \<Longrightarrow> call_cur a = 0 \<Longrightarrow> call_next a \<noteq> 0 \<Longrightarrow> call_next a = 1"
  by (cases a) (auto simp: call_ok_def)

lemma unat_of_nat_small: "int z < 2 ^ 31 \<Longrightarrow> unat (of_nat z :: u32) = z"
proof -
  assume "int z < 2 ^ 31"
  then have "int z < int (2 ^ 32)" by simp
  then have "z < 2 ^ 32" by (simp only: of_nat_less_iff)
  then show ?thesis by (simp add: unat_of_nat)
qed

lemma longest_zero_run_ge: "k \<le> longest_zero_run k vs"
proof (induction vs arbitrary: k)
  case Nil
  then show ?case by simp
next
  case (Cons v vs)
  from Cons [of "Suc k"] show ?case by simp
qed

lemma longest_zero_run_mono: "k \<le> k' \<Longrightarrow> longest_zero_run k vs \<le> longest_zero_run k' vs"
proof (induction vs arbitrary: k k')
  case Nil
  then show ?case by simp
next
  case (Cons v vs)
  from Cons.IH [of "Suc k" "Suc k'"] Cons.prems show ?case by (auto simp: max_def)
qed

lemma longest_zero_run_suffix: "longest_zero_run 0 ys \<le> longest_zero_run k (xs @ ys)"
proof (induction xs arbitrary: k)
  case Nil
  then show ?case by (simp add: longest_zero_run_mono)
next
  case (Cons x xs)
  from Cons [of "Suc k"] Cons [of 0] show ?case by (auto simp: max_def)
qed

lemma longest_zero_run_replicate:
  "longest_zero_run k (replicate j 0 @ ys) = longest_zero_run (k + j) ys"
  by (induction j arbitrary: k) simp_all

lemma longest_zero_run_le_length: "longest_zero_run k vs \<le> k + length vs"
proof (induction vs arbitrary: k)
  case Nil
  then show ?case by simp
next
  case (Cons v vs)
  from Cons [of "Suc k"] Cons [of 0] show ?case by simp
qed

lemma read_all_calls:
  assumes "chained cs" and "list_all call_ok cs"
    and "longest_zero_run 0 (map call_value cs) < 2 ^ 31"
    and "cs \<noteq> [] \<Longrightarrow> call_prev (hd cs) = p \<and> call_cur (hd cs) = c"
  shows "\<exists>d'. read_all x (length cs)
           \<lparr> bit_reader = calls_bits 0 cs @ final_code (calls_pending 0 cs) @ r,
             prev_num_bits = p, cur_num_bits = c, zero_runlength = - 1 \<rparr>
         = Some (map call_value cs, d')"
  using assms
proof (induction cs arbitrary: p c rule: length_induct)
  case (1 cs)
  show ?case
  proof (cases cs)
    case Nil
    then show ?thesis by simp
  next
    case (Cons a cs')
    obtain p0 c0 n0 v0 where a: "a = (p0, c0, n0, v0)" by (cases a)
    have pc: "p0 = p" "c0 = c" using 1(5) Cons a by simp_all
    have oka: "call_ok (p, c, n0, v0)" using 1(3) Cons a pc by simp
    show ?thesis
    proof (cases "c = 0")
      case False
      have ch': "chained cs'" using chained_append_right [of "[a]" cs'] 1(2) Cons by simp
      have ok': "list_all call_ok cs'" using 1(3) Cons by simp
      have len': "longest_zero_run 0 (map call_value cs') < 2 ^ 31"
        using 1(4) longest_zero_run_suffix [of "map call_value cs'" 0 "[call_value a]"] Cons
        by simp
      have hd': "cs' \<noteq> [] \<Longrightarrow> call_prev (hd cs') = c \<and> call_cur (hd cs') = n0"
        using chained_link [of "[a]" cs'] 1(2) Cons a pc by simp
      have "length cs' < length cs" using Cons by simp
      from 1(1) [rule_format, OF this ch' ok' len' hd']
      obtain d' where d': "read_all x (length cs')
           \<lparr> bit_reader = calls_bits 0 cs' @ final_code (calls_pending 0 cs') @ r,
             prev_num_bits = c, cur_num_bits = n0, zero_runlength = - 1 \<rparr>
         = Some (map call_value cs', d')" by blast
      have bits: "calls_bits 0 cs @ final_code (calls_pending 0 cs) @ r
          = delta_code (n0 - c) @ value_code p c n0 v0
            @ (calls_bits 0 cs' @ final_code (calls_pending 0 cs') @ r)"
        using False Cons a pc by (simp add: final_code_def)
      have len: "length cs = Suc (length cs')" and mp: "map call_value cs = v0 # map call_value cs'"
        using Cons a by simp_all
      show ?thesis
        unfolding bits len mp
        by (simp add: Read_nonzero_width [OF oka False] d')
    next
      case True
      let ?Z = "\<lambda>a. call_cur a = 0"
      define zs where "zs = takeWhile ?Z cs"
      define cs'' where "cs'' = dropWhile ?Z cs"
      have split: "cs = zs @ cs''" by (simp add: zs_def cs''_def)
      have "call_cur a = 0" using True a pc by simp
      then have zne: "zs \<noteq> []" unfolding zs_def Cons by simp
      have zall: "list_all ?Z zs"
        by (auto simp: zs_def list_all_iff dest: set_takeWhileD)
      have hd'': "cs'' = [] \<or> call_cur (hd cs'') \<noteq> 0"
        using hd_dropWhile [of ?Z cs] by (auto simp: cs''_def)
      have vals: "map call_value zs = replicate (length zs) 0"
      proof (rule nth_equalityI)
        show "length (map call_value zs) = length (replicate (length zs) (0::u32))" by simp
      next
        fix i assume "i < length (map call_value zs)"
        then have i: "i < length zs" by simp
        then have "zs ! i \<in> set cs" using split by (metis nth_mem set_append UnI1)
        then have "call_ok (zs ! i)" using 1(3) by (simp add: list_all_iff)
        moreover have "call_cur (zs ! i) = 0" using zall i by (simp add: list_all_length)
        ultimately show "map call_value zs ! i = replicate (length zs) 0 ! i"
          using i zero_width_value by simp
      qed
      have mp: "map call_value cs = replicate (length zs) 0 @ map call_value cs''"
        using split vals by simp
      define K :: u32 where "K = of_nat (length zs)"
      have "length zs \<le> longest_zero_run 0 (map call_value cs)"
        unfolding mp longest_zero_run_replicate
        using longest_zero_run_ge [of "length zs" "map call_value cs''"] by simp
      then have "length zs < 2 ^ 31" using 1(4) by simp
      then have "int (length zs) < int (2 ^ 31)" by (simp only: of_nat_less_iff)
      then have lz: "int (length zs) < 2 ^ 31" by simp
      have uK: "unat K = length zs" using unat_of_nat_small [OF lz] by (simp add: K_def)
      have K0: "K \<noteq> 0" using uK zne by (metis length_0_conv unat_0)
      have Ks: "unat K < 2 ^ 31"
      proof -
        have "int (unat K) < int (2 ^ 31)" using lz uK by simp
        then show ?thesis by (simp only: of_nat_less_iff)
      qed
      have bits: "calls_bits 0 cs @ final_code (calls_pending 0 cs) @ r
          = run_code K @ (calls_bits 0 cs'' @ final_code (calls_pending 0 cs'') @ r)"
        using calls_zeros [OF zall, of 0 cs''] run_split [OF K0 hd'', of r]
        by (simp add: split K_def)
      have ch'': "chained cs''" using chained_append_right [of zs cs''] 1(2) split by simp
      have ok'': "list_all call_ok cs''" using 1(3) split by simp
      have len'': "longest_zero_run 0 (map call_value cs'') < 2 ^ 31"
        using 1(4) longest_zero_run_suffix [of "map call_value cs''" 0 "map call_value zs"] split
        by simp
      have hdn: "cs'' \<noteq> [] \<Longrightarrow> call_prev (hd cs'') = 0 \<and> call_cur (hd cs'') = 1"
      proof -
        assume ne: "cs'' \<noteq> []"
        have l: "call_prev (hd cs'') = call_cur (last zs) \<and> call_cur (hd cs'') = call_next (last zs)"
          using chained_link [OF _ zne ne] 1(2) split by simp
        have lz0: "call_cur (last zs) = 0" using zall zne by (simp add: list_all_iff)
        have "last zs \<in> set cs" using split zne by simp
        then have lok: "call_ok (last zs)" using 1(3) by (simp add: list_all_iff)
        have "call_next (last zs) \<noteq> 0" using l hd'' ne by simp
        from zero_width_next [OF lok lz0 this] l lz0 show ?thesis by simp
      qed
      have "length cs'' < length cs" using split zne by simp
      from 1(1) [rule_format, OF this ch'' ok'' len'' hdn]
      obtain d' where d': "read_all x (length cs'')
           \<lparr> bit_reader = calls_bits 0 cs'' @ final_code (calls_pending 0 cs'') @ r,
             prev_num_bits = 0, cur_num_bits = 1, zero_runlength = - 1 \<rparr>
         = Some (map call_value cs'', d')" by blast
      have run: "read_all x (length zs)
           \<lparr> bit_reader = run_code K @ (calls_bits 0 cs'' @ final_code (calls_pending 0 cs'') @ r),
             prev_num_bits = p, cur_num_bits = 0, zero_runlength = - 1 \<rparr>
         = Some (replicate (length zs) 0,
           \<lparr> bit_reader = calls_bits 0 cs'' @ final_code (calls_pending 0 cs'') @ r,
             prev_num_bits = 0, cur_num_bits = 1, zero_runlength = - 1 \<rparr>)"
        using read_all_run [OF K0 Ks, of x _ p] uK by simp
      have len: "length cs = length zs + length cs''" using split by simp
      show ?thesis
        unfolding bits len mp read_all_append True run
        by (simp add: d')
    qed
  qed
qed

section \<open>The elided top bit through \<open>WriteCode\<close> and \<open>Read\<close>\<close>

text \<open>Claim C3.  Take any call \<open>WriteCode(prev_num_bits, cur_num_bits, next_num_bits, i)\<close> that
  \<open>FlushSome\<close> makes (its loop is \<open>WriteCode\<close> run over \<open>FlushSome_calls\<close>; the first width of
  the stream doubles as the previous width of the first symbol, the last width as the next
  width of the last symbol) for which the top bit is redundant.  Then the width is exactly
  the bit width of the value, so bit \<open>cur_num_bits - 1\<close> of the value is set and the assertion
  of \<open>WriteCode\<close> holds: \<open>WriteCode\<close> succeeds, having written (after the code of a pending
  zero run and the width-delta code) the value without that bit in \<open>cur_num_bits - 1\<close> bits;
  and \<open>ReverseUintStream::Read\<close>, at the widths of the call and on the bits \<open>WriteCode\<close> wrote
  from the width-delta code on, returns true with exactly the value, the elided bit
  restored.\<close>

theorem elided_top_bit_is_set:
  assumes "n \<le> length (buffer s)" and "started s \<or> most_recent_num_bits s = 0"
    and "most_recent_num_bits s \<le> 32"
    and "(p, c, nx, v) \<in> set (FlushSome_calls n s)" and "top_bit_redundant p c nx"
  shows "FlushSome n s =
       (case WriteCode_all (FlushSome_calls n s)
               (if started s then s
                else s\<lparr> bit_stream := write_prelude (ComputeNumBits s ! 0) (bit_stream s),
                        started := True,
                        most_recent_num_bits := ComputeNumBits s ! 0 \<rparr>) of
          Inl e \<Rightarrow> Inl e
        | Inr s2 \<Rightarrow> Inr (s2\<lparr> most_recent_num_bits := ComputeNumBits s ! (n - 1),
                             buffer := drop n (buffer s) \<rparr>))
     \<and> num_bits v = c
     \<and> (v AND (push_bit (nat (c - 1)) 1)) \<noteq> 0
     \<and> WriteCode p c nx v t =
         Inr (t\<lparr> bit_stream :=
                    BitStream_Write (c - 1) (v XOR (push_bit (nat (c - 1)) 1))
                      (bit_stream t @ final_code (num_pending_zeros t) @ delta_code (nx - c)),
                  num_pending_zeros := 0 \<rparr>)
     \<and> ReverseUintStream_Read x
           \<lparr> bit_reader =
               BitStream_Write (c - 1) (v XOR (push_bit (nat (c - 1)) 1)) (delta_code (nx - c))
                 @ rest,
             prev_num_bits = p, cur_num_bits = c, zero_runlength = z \<rparr>
         = Some (v, \<lparr> bit_reader = rest, prev_num_bits = c, cur_num_bits = nx,
                       zero_runlength = z \<rparr>)"
proof -
  have st: "started s \<or> most_recent_num_bits s \<le> 1" "most_recent_num_bits s \<le> 33"
    using assms(2,3) by auto
  have n0: "0 < n"
    using assms(4) length_FlushSome_calls [OF assms(1)] by (cases n) auto
  have nb: "num_bits v = c" using FlushSome_calls_tbr [OF assms(1) st(1) assms(4,5)] .
  have cpos: "0 < c" using assms(5) by (simp add: top_bit_redundant_def)
  have ok: "call_ok (p, c, nx, v)"
    using FlushSome_calls_all_ok [OF st assms(1)] assms(4) by (simp add: list_all_iff)
  have c0: "c \<noteq> 0" using cpos by simp
  have vc: "value_code p c nx v = map (bit v) [0..<nat (c - 1)]"
    using assms(5) by (simp add: value_code_def)
  have wr: "BitStream_Write (c - 1) (v XOR (push_bit (nat (c - 1)) 1)) bs
              = bs @ map (bit v) [0..<nat (c - 1)]" for bs
    by (simp add: BitStream_Write_def xor_top_bits)
  show ?thesis
    unfolding wr
    using FlushSome_WriteCode_all [OF n0 assms(1)] nb top_bit_set [OF nb cpos]
      WriteCode_nonzero [OF ok c0, of t] Read_nonzero_width [OF ok c0, of x rest z]
    by (simp add: vc)
qed

theorem elided_top_bit_is_set_witness:
  "(1::nat) \<le> length (buffer (UintStream_new\<lparr> buffer := [5] \<rparr>))
   \<and> (started (UintStream_new\<lparr> buffer := [5] \<rparr>)
        \<or> most_recent_num_bits (UintStream_new\<lparr> buffer := [5] \<rparr>) = 0)
   \<and> most_recent_num_bits (UintStream_new\<lparr> buffer := [5] \<rparr>) \<le> 32
   \<and> (3, 3, 3, 5) \<in> set (FlushSome_calls 1 (UintStream_new\<lparr> buffer := [5] \<rparr>))
   \<and> top_bit_redundant 3 3 3
   \<and> num_bits 5 = 3
   \<and> ((5::u32) AND (push_bit (nat (3 - 1)) 1)) \<noteq> 0
   \<and> WriteCode 3 3 3 5 (UintStream_new\<lparr> bit_stream := write_prelude 3 [], started := True \<rparr>) =
         Inr (UintStream_new\<lparr> bit_stream := [True, True, False, False, False, False, True, False],
                started := True \<rparr>)
   \<and> ReverseUintStream_Read 0
           \<lparr> bit_reader = [False, True, False] @ [True],
             prev_num_bits = 3, cur_num_bits = 3, zero_runlength = - 1 \<rparr>
         = Some (5, \<lparr> bit_reader = [True], prev_num_bits = 3, cur_num_bits = 3,
                       zero_runlength = - 1 \<rparr>)"
proof -
  let ?s = "UintStream_new\<lparr> buffer := [5] \<rparr>"
  let ?t = "UintStream_new\<lparr> bit_stream := write_prelude 3 [], started := True \<rparr>"
  have 1: "(1::nat) \<le> length (buffer ?s)" by (simp add: UintStream_new_def)
  have 2: "started ?s \<or> most_recent_num_bits ?s = 0" by (simp add: UintStream_new_def)
  have 3: "most_recent_num_bits ?s \<le> 32" by (simp add: UintStream_new_def)
  have 4: "(3, 3, 3, 5) \<in> set (FlushSome_calls 1 ?s)" by code_simp
  have 5: "top_bit_redundant 3 3 3" by (simp add: top_bit_redundant_def)
  note t = elided_top_bit_is_set [OF 1 2 3 4 5, of ?t 0 "[True]" "- 1"]
  have b: "BitStream_Write (3 - 1) ((5::u32) XOR (push_bit (nat (3 - 1)) 1)) bs
      = bs @ [True, False]" for bs
    by (simp add: BitStream_Write_def upt_rec bit_xor_iff)
  have p: "write_prelude 3 [] = [True, True, False, False, False]" by code_simp
  have w: "WriteCode 3 3 3 5 ?t =
         Inr (UintStream_new\<lparr> bit_stream := [True, True, False, False, False, False, True, False],
                started := True \<rparr>)"
    using t unfolding b p by (simp add: UintStream_new_def final_code_def delta_code_def)
  have r: "ReverseUintStream_Read 0
           \<lparr> bit_reader = [False, True, False] @ [True],
             prev_num_bits = 3, cur_num_bits = 3, zero_runlength = - 1 \<rparr>
         = Some (5, \<lparr> bit_reader = [True], prev_num_bits = 3, cur_num_bits = 3,
                       zero_runlength = - 1 \<rparr>)"
    using t unfolding b by (simp add: delta_code_def)
  from t 1 2 3 4 5 w r show ?thesis by blast
qed

section \<open>Widths across a flush boundary\<close>

lemma ComputeNumBits_widths: "ComputeNumBits s = widths (most_recent_num_bits s) (buffer s)"
  by (simp add: ComputeNumBits_alt widths_def)

lemma widths_as_state:
  "widths seed vs = ComputeNumBits (UintStream_new\<lparr> most_recent_num_bits := seed, buffer := vs \<rparr>)"
  by (simp add: ComputeNumBits_widths)

lemma length_widths [simp]: "length (widths seed vs) = length vs"
  by (simp add: widths_def)

lemma widths_admissible: "admissible seed vs (widths seed vs)"
  using ComputeNumBits_admissible [of "UintStream_new\<lparr> most_recent_num_bits := seed, buffer := vs \<rparr>"]
  by (simp add: ComputeNumBits_widths)

lemma widths_least: "admissible seed vs u \<Longrightarrow> list_all2 (\<le>) (widths seed vs) u"
  using ComputeNumBits_least [of "UintStream_new\<lparr> most_recent_num_bits := seed, buffer := vs \<rparr>" u]
  by (simp add: ComputeNumBits_widths)

lemma admissible_nth:
  "admissible seed vs u \<longleftrightarrow>
     length u = length vs \<and> (\<forall>i < length vs. num_bits (vs ! i) \<le> u ! i) \<and>
     (\<forall>i. Suc i < length vs \<longrightarrow> \<bar>u ! Suc i - u ! i\<bar> \<le> 1) \<and>
     (vs \<noteq> [] \<longrightarrow> seed - 1 \<le> u ! 0)"
proof -
  have s: "length u = length vs \<Longrightarrow>
      slope_ok u \<longleftrightarrow> (\<forall>i. Suc i < length vs \<longrightarrow> \<bar>u ! Suc i - u ! i\<bar> \<le> 1)"
    using slope_ok_nth [of u] slope_okI [of u] by auto
  have h: "length u = length vs \<Longrightarrow>
      (case u of [] \<Rightarrow> True | x # _ \<Rightarrow> seed - 1 \<le> x) \<longleftrightarrow> (vs \<noteq> [] \<longrightarrow> seed - 1 \<le> u ! 0)"
    by (cases u) auto
  show ?thesis
    unfolding admissible_def list_all2_conv_all_nth using s h by auto
qed

lemma widths_nonneg: "i < length vs \<Longrightarrow> 0 \<le> widths seed vs ! i"
  using ComputeNumBits_nonneg [of i "UintStream_new\<lparr> most_recent_num_bits := seed, buffer := vs \<rparr>"]
  by (simp add: ComputeNumBits_widths)

lemma widths_upper: "seed \<le> 33 \<Longrightarrow> i < length vs \<Longrightarrow> widths seed vs ! i \<le> 32"
  using ComputeNumBits_upper [of "UintStream_new\<lparr> most_recent_num_bits := seed, buffer := vs \<rparr>" i]
  by (simp add: ComputeNumBits_widths)

lemma widths_props:
  "i < length vs \<Longrightarrow> num_bits (vs ! i) \<le> widths seed vs ! i"
  "Suc i < length vs \<Longrightarrow> \<bar>widths seed vs ! Suc i - widths seed vs ! i\<bar> \<le> 1"
  "vs \<noteq> [] \<Longrightarrow> seed - 1 \<le> widths seed vs ! 0"
  using widths_admissible [of seed vs] unfolding admissible_nth by auto

lemma widths_stable_le:
  assumes len: "length vs = 64" and seed: "seed \<le> 33"
  shows "widths (widths seed vs ! 31) (drop 32 vs @ ws) ! 0 \<le> widths seed vs ! 32"
proof -
  let ?W = "widths seed vs"
  let ?V = "drop 32 vs @ ws"
  define u where "u = map (\<lambda>i. max (?W ! (32 + i)) (int i)) [0..<32] @ replicate (length ws) 32"
  have lu: "length u = length ?V" using len by (simp add: u_def)
  have u1: "u ! i = max (?W ! (32 + i)) (int i)" if "i < 32" for i
    using that by (simp add: u_def nth_append)
  have u2: "u ! i = 32" if "32 \<le> i" "i < length ?V" for i
    using that len by (simp add: u_def nth_append)
  have Wr: "0 \<le> ?W ! i" "?W ! i \<le> 32" if "i < 64" for i
    using that len widths_nonneg [of i vs seed] widths_upper [OF seed, of i vs] by simp_all
  have Ws: "\<bar>?W ! Suc i - ?W ! i\<bar> \<le> 1" if "Suc i < 64" for i
    using that len widths_props(2) [of i vs seed] by simp
  have lower: "num_bits (?V ! i) \<le> u ! i" if "i < length ?V" for i
  proof (cases "i < 32")
    case True
    then have "?V ! i = vs ! (32 + i)" using len by (simp add: nth_append)
    moreover have "num_bits (vs ! (32 + i)) \<le> ?W ! (32 + i)"
      using True len widths_props(1) [of "32 + i" vs seed] by simp
    ultimately show ?thesis using u1 [OF True] by simp
  next
    case False
    then show ?thesis using u2 [of i] that num_bits_le_32 [of "?V ! i"] by simp
  qed
  have slope: "\<bar>u ! Suc i - u ! i\<bar> \<le> 1" if "Suc i < length ?V" for i
  proof -
    consider "Suc i < 32" | "Suc i = 32" | "32 \<le> i" by linarith
    then show ?thesis
    proof cases
      case 1
      then show ?thesis using u1 [of i] u1 [of "Suc i"] Ws [of "32 + i"] by simp
    next
      case 2
      then have i: "i = 31" by simp
      show ?thesis using u1 [of 31] u2 [of 32] that Wr [of 63] i by simp
    next
      case 3
      then show ?thesis using u2 [of i] u2 [of "Suc i"] that by simp
    qed
  qed
  have hd: "?W ! 31 - 1 \<le> u ! 0" using u1 [of 0] Ws [of 31] by simp
  have "admissible (?W ! 31) ?V u"
    unfolding admissible_nth using lu lower slope hd by simp
  from widths_least [OF this] have "widths (?W ! 31) ?V ! 0 \<le> u ! 0"
    by (rule list_all2_nthD) (use len in simp)
  then show ?thesis using u1 [of 0] Wr(1) [of 32] by simp
qed

lemma widths_stable_ge:
  assumes len: "length vs = 64" and seed: "seed \<le> 33"
  shows "widths seed vs ! 32 \<le> widths (widths seed vs ! 31) (drop 32 vs @ ws) ! 0"
proof -
  let ?W = "widths seed vs"
  let ?V = "drop 32 vs @ ws"
  let ?W' = "widths (?W ! 31) ?V"
  define u where "u = take 32 ?W @ take 32 ?W'"
  have lV: "32 \<le> length ?V" using len by simp
  have lu: "length u = length vs" using len by (simp add: u_def)
  have u1: "u ! i = ?W ! i" if "i < 32" for i
    using that len by (simp add: u_def nth_append)
  have u2: "u ! i = ?W' ! (i - 32)" if "32 \<le> i" "i < 64" for i
    using that len by (simp add: u_def nth_append)
  have Vn: "?V ! j = vs ! (32 + j)" if "j < 32" for j
    using that len by (simp add: nth_append)
  have lower: "num_bits (vs ! i) \<le> u ! i" if "i < length vs" for i
  proof (cases "i < 32")
    case True
    then show ?thesis using u1 [OF True] widths_props(1) [OF that, of seed] by simp
  next
    case False
    then have j: "i - 32 < 32" "i = 32 + (i - 32)" using that len by simp_all
    have "num_bits (?V ! (i - 32)) \<le> ?W' ! (i - 32)"
      using widths_props(1) [of "i - 32" ?V "?W ! 31"] j lV by simp
    then show ?thesis using u2 [of i] False that len Vn [OF j(1)] j(2) by simp
  qed
  have le0: "?W' ! 0 \<le> ?W ! 32" using widths_stable_le [OF len seed] .
  have ge0: "?W ! 31 - 1 \<le> ?W' ! 0"
    using widths_props(3) [of ?V "?W ! 31"] len by auto
  have W3132: "\<bar>?W ! 32 - ?W ! 31\<bar> \<le> 1" using widths_props(2) [of 31 vs seed] len by simp
  have slope: "\<bar>u ! Suc i - u ! i\<bar> \<le> 1" if "Suc i < length vs" for i
  proof -
    consider "Suc i < 32" | "Suc i = 32" | "32 \<le> i" by linarith
    then show ?thesis
    proof cases
      case 1
      then show ?thesis using u1 [of i] u1 [of "Suc i"] widths_props(2) [OF that, of seed] by simp
    next
      case 2
      then have i: "i = 31" by simp
      show ?thesis using u1 [of 31] u2 [of 32] i le0 ge0 W3132 by simp
    next
      case 3
      then have "Suc (i - 32) < length ?V" using that len by simp
      moreover have "Suc i - 32 = Suc (i - 32)" using 3 by simp
      ultimately show ?thesis
        using widths_props(2) [of "i - 32" ?V "?W ! 31"] u2 [of i] u2 [of "Suc i"] 3 that len
        by simp
    qed
  qed
  have "vs \<noteq> []" using len by auto
  then have hd: "seed - 1 \<le> u ! 0" using u1 [of 0] widths_props(3) [of vs seed] by simp
  have "admissible seed vs u"
    unfolding admissible_nth using lu lower slope hd by simp
  from widths_least [OF this] have "?W ! 32 \<le> u ! 32"
    by (rule list_all2_nthD) (use len in simp)
  then show ?thesis using u2 [of 32] by simp
qed

lemma widths_stable:
  assumes "length vs = 64" and "seed \<le> 33"
  shows "widths (widths seed vs ! 31) (drop 32 vs @ ws) ! 0 = widths seed vs ! 32"
  using widths_stable_le [OF assms, of ws] widths_stable_ge [OF assms, of ws] by simp

section \<open>The encoder as one chain of calls\<close>

lemma calls_append:
  "calls_bits k (xs @ ys) = calls_bits k xs @ calls_bits (calls_pending k xs) ys"
  "calls_pending k (xs @ ys) = calls_pending (calls_pending k xs) ys"
  by (induction k xs rule: calls_bits.induct) simp_all

lemma map_call_value_FlushSome_calls:
  assumes "n \<le> length (buffer s)"
  shows "map call_value (FlushSome_calls n s) = take n (buffer s)"
proof (rule nth_equalityI)
  show "length (map call_value (FlushSome_calls n s)) = length (take n (buffer s))"
    using assms by (simp add: length_FlushSome_calls)
next
  fix i assume "i < length (map call_value (FlushSome_calls n s))"
  then have i: "i < n" using assms by (simp add: length_FlushSome_calls)
  then show "map call_value (FlushSome_calls n s) ! i = take n (buffer s) ! i"
    using assms by (simp add: length_FlushSome_calls FlushSome_calls_nth)
qed

lemma chained_FlushSome_calls: "chained (FlushSome_calls n s)"
  by (simp add: FlushSome_calls_def Let_def chained_loop_calls)

lemma hd_FlushSome_calls:
  assumes "0 < n" and "n \<le> length (buffer s)"
  shows "call_prev (hd (FlushSome_calls n s)) =
           (if started s then most_recent_num_bits s else ComputeNumBits s ! 0)"
    and "call_cur (hd (FlushSome_calls n s)) = ComputeNumBits s ! 0"
proof -
  have "FlushSome_calls n s \<noteq> []" using assms length_FlushSome_calls [OF assms(2)] by auto
  then have "hd (FlushSome_calls n s) = FlushSome_calls n s ! 0" by (simp add: hd_conv_nth)
  then show "call_prev (hd (FlushSome_calls n s)) =
           (if started s then most_recent_num_bits s else ComputeNumBits s ! 0)"
    and "call_cur (hd (FlushSome_calls n s)) = ComputeNumBits s ! 0"
    using FlushSome_calls_nth [OF assms(2,1)] by simp_all
qed

lemma last_FlushSome_calls:
  assumes "0 < n" and "n \<le> length (buffer s)"
  shows "call_cur (last (FlushSome_calls n s)) = ComputeNumBits s ! (n - 1)"
    and "n < length (buffer s) \<Longrightarrow> call_next (last (FlushSome_calls n s)) = ComputeNumBits s ! n"
proof -
  have ne: "FlushSome_calls n s \<noteq> []" using assms length_FlushSome_calls [OF assms(2)] by auto
  have l: "last (FlushSome_calls n s) = FlushSome_calls n s ! (n - 1)"
    using ne length_FlushSome_calls [OF assms(2)] by (simp add: last_conv_nth)
  have n1: "n - 1 < n" using assms by simp
  show "call_cur (last (FlushSome_calls n s)) = ComputeNumBits s ! (n - 1)"
    unfolding l FlushSome_calls_nth [OF assms(2) n1] by simp
  show "call_next (last (FlushSome_calls n s)) = ComputeNumBits s ! n" if "n < length (buffer s)"
    unfolding l FlushSome_calls_nth [OF assms(2) n1] using that assms by simp
qed

lemma call_ok_cur_range: "call_ok a \<Longrightarrow> 0 \<le> call_cur a \<and> call_cur a \<le> 32"
  by (cases a) (simp add: call_ok_def)

lemma enc_core_mr:
  assumes "enc_core vs s"
  shows "(started s \<or> most_recent_num_bits s \<le> 1) \<and> most_recent_num_bits s \<le> 33"
proof (cases "started s")
  case True
  then obtain cs where cs: "cs \<noteq> []" "list_all call_ok cs"
      "most_recent_num_bits s = call_cur (last cs)"
    using assms unfolding enc_core_def by auto
  have "call_ok (last cs)" using cs(1,2) by (simp add: list_all_iff)
  from call_ok_cur_range [OF this] show ?thesis using True cs(3) by simp
next
  case False
  then show ?thesis using assms unfolding enc_core_def by simp
qed

lemma enc_core_append:
  assumes core: "enc_core vs s" and st: "started s \<longrightarrow> 64 \<le> length vs"
  shows "enc_core (vs @ [v]) (s\<lparr> buffer := buffer s @ [v] \<rparr>)"
proof (cases "started s")
  case False
  then show ?thesis using core unfolding enc_core_def by simp
next
  case True
  then obtain cs where cs: "cs \<noteq> []" "chained cs" "list_all call_ok cs"
      "call_prev (hd cs) = call_cur (hd cs)"
      "call_cur (hd cs) = widths 0 (take 64 vs) ! 0"
      "map call_value cs @ buffer s = vs"
      "bit_stream s = prelude_code (call_cur (hd cs)) @ calls_bits 0 cs"
      "num_pending_zeros s = calls_pending 0 cs"
      "most_recent_num_bits s = call_cur (last cs)"
      "\<forall>ws. widths (most_recent_num_bits s) (buffer s @ ws) ! 0 = call_next (last cs)"
    using core unfolding enc_core_def by auto
  have t: "take 64 (vs @ [v]) = take 64 vs" using st True by simp
  have w: "\<forall>ws. widths (most_recent_num_bits s) ((buffer s @ [v]) @ ws) ! 0 = call_next (last cs)"
    using cs(10) by simp
  have m: "map call_value cs @ buffer s @ [v] = vs @ [v]" using cs(6) by simp
  show ?thesis
    unfolding enc_core_def
    using True cs(1-5,7-9) t w m
    by (auto intro!: exI [of _ cs])
qed

text \<open>One call of \<open>FlushSome\<close> from a state that satisfies the invariant: the calls made so
  far, extended by the calls of this flush, still form one chain.\<close>

lemma enc_core_FlushSome:
  assumes core: "enc_core vs s" and n: "0 < n" "n \<le> length (buffer s)"
    and short: "\<not> started s \<longrightarrow> length (buffer s) \<le> 64"
  shows "\<exists>cs. FlushSome n s =
       Inr (s\<lparr> buffer := drop n (buffer s),
                most_recent_num_bits := ComputeNumBits s ! (n - 1),
                bit_stream := prelude_code (call_cur (hd cs)) @ calls_bits 0 cs,
                started := True,
                num_pending_zeros := calls_pending 0 cs \<rparr>)
     \<and> cs \<noteq> [] \<and> chained cs \<and> list_all call_ok cs
     \<and> call_prev (hd cs) = call_cur (hd cs)
     \<and> call_cur (hd cs) = widths 0 (take 64 vs) ! 0
     \<and> map call_value cs @ drop n (buffer s) = vs
     \<and> call_cur (last cs) = ComputeNumBits s ! (n - 1)
     \<and> (n < length (buffer s) \<longrightarrow> call_next (last cs) = ComputeNumBits s ! n)"
proof -
  let ?calls = "FlushSome_calls n s"
  have mr: "started s \<or> most_recent_num_bits s \<le> 1" "most_recent_num_bits s \<le> 33"
    using enc_core_mr [OF core] by simp_all
  have eq: "FlushSome n s =
     Inr (s\<lparr> buffer := drop n (buffer s),
              most_recent_num_bits := ComputeNumBits s ! (n - 1),
              bit_stream := bit_stream s
                 @ (if started s then [] else prelude_code (ComputeNumBits s ! 0))
                 @ calls_bits (num_pending_zeros s) ?calls,
              started := True,
              num_pending_zeros := calls_pending (num_pending_zeros s) ?calls \<rparr>)"
    using FlushSome_eq [OF mr n] .
  have ok: "list_all call_ok ?calls" using FlushSome_calls_all_ok [OF mr n(2)] .
  have ch: "chained ?calls" using chained_FlushSome_calls .
  have ne: "?calls \<noteq> []" using n length_FlushSome_calls [OF n(2)] by auto
  have vals: "map call_value ?calls = take n (buffer s)"
    using map_call_value_FlushSome_calls [OF n(2)] .
  have hd: "call_prev (hd ?calls) = (if started s then most_recent_num_bits s else ComputeNumBits s ! 0)"
      "call_cur (hd ?calls) = ComputeNumBits s ! 0"
    using hd_FlushSome_calls [OF n] by simp_all
  have lst: "call_cur (last ?calls) = ComputeNumBits s ! (n - 1)"
      "n < length (buffer s) \<longrightarrow> call_next (last ?calls) = ComputeNumBits s ! n"
    using last_FlushSome_calls [OF n] by simp_all
  show ?thesis
  proof (cases "started s")
    case False
    then have b: "buffer s = vs" "bit_stream s = []" "num_pending_zeros s = 0"
        "most_recent_num_bits s = 0"
      using core unfolding enc_core_def by simp_all
    have "take 64 vs = vs" using short False b(1) by simp
    then have w0: "ComputeNumBits s ! 0 = widths 0 (take 64 vs) ! 0"
      using b by (simp add: ComputeNumBits_widths)
    show ?thesis
      using eq ok ch ne vals hd lst False b w0
      by (intro exI [of _ ?calls]) simp
  next
    case True
    then obtain cs where cs: "cs \<noteq> []" "chained cs" "list_all call_ok cs"
        "call_prev (hd cs) = call_cur (hd cs)"
        "call_cur (hd cs) = widths 0 (take 64 vs) ! 0"
        "map call_value cs @ buffer s = vs"
        "bit_stream s = prelude_code (call_cur (hd cs)) @ calls_bits 0 cs"
        "num_pending_zeros s = calls_pending 0 cs"
        "most_recent_num_bits s = call_cur (last cs)"
        "\<forall>ws. widths (most_recent_num_bits s) (buffer s @ ws) ! 0 = call_next (last cs)"
      using core unfolding enc_core_def by auto
    have w0: "ComputeNumBits s ! 0 = call_next (last cs)"
      using cs(10) [rule_format, of "[]"] by (simp add: ComputeNumBits_widths)
    have link: "call_prev (hd ?calls) = call_cur (last cs) \<and> call_cur (hd ?calls) = call_next (last cs)"
      using hd True cs(9) w0 by simp
    have ch': "chained (cs @ ?calls)"
      using chained_appendI [OF cs(2) ch] link by simp
    have bits: "bit_stream s @ calls_bits (num_pending_zeros s) ?calls
        = prelude_code (call_cur (hd (cs @ ?calls))) @ calls_bits 0 (cs @ ?calls)"
      using cs(1,7,8) by (simp add: calls_append)
    have pend: "calls_pending (num_pending_zeros s) ?calls = calls_pending 0 (cs @ ?calls)"
      using cs(8) by (simp add: calls_append)
    have v': "map call_value (cs @ ?calls) @ drop n (buffer s) = vs"
      using cs(6) vals by simp
    show ?thesis
      using eq ok ch' ne lst True cs(1,3,4,5) bits pend v'
      by (intro exI [of _ "cs @ ?calls"]) simp
  qed
qed

lemma enc_inv_new: "enc_inv [] UintStream_new"
  by (simp add: enc_inv_def enc_core_def UintStream_new_def)

lemma enc_inv_Write:
  assumes inv: "enc_inv vs s"
  shows "\<exists>s'. UintStream_Write v s = Inr s' \<and> enc_inv (vs @ [v]) s'"
proof -
  let ?s1 = "s\<lparr> buffer := buffer s @ [v] \<rparr>"
  have nf: "\<not> flushed s" and len: "length (buffer s) < 64" and core: "enc_core vs s"
    and st: "started s \<longrightarrow> 32 \<le> length (buffer s) \<and> 64 \<le> length vs"
    using inv unfolding enc_inv_def by simp_all
  have core1: "enc_core (vs @ [v]) ?s1" using enc_core_append [OF core] st by simp
  show ?thesis
  proof (cases "length (buffer s) + 1 < 64")
    case True
    then have "UintStream_Write v s = Inr ?s1" by (simp add: UintStream_Write_def)
    moreover have "enc_inv (vs @ [v]) ?s1"
      unfolding enc_inv_def using nf True core1 st by auto
    ultimately show ?thesis by blast
  next
    case False
    then have l64: "length (buffer ?s1) = 64" using len by simp
    have w: "UintStream_Write v s = FlushSome 32 ?s1"
      using l64 by (simp add: UintStream_Write_def)
    have n: "(0::nat) < 32" "32 \<le> length (buffer ?s1)" using l64 by simp_all
    have short: "\<not> started ?s1 \<longrightarrow> length (buffer ?s1) \<le> 64" using l64 by simp
    from enc_core_FlushSome [OF core1 n short]
    obtain cs where cs: "FlushSome 32 ?s1 =
       Inr (?s1\<lparr> buffer := drop 32 (buffer ?s1),
                most_recent_num_bits := ComputeNumBits ?s1 ! (32 - 1),
                bit_stream := prelude_code (call_cur (hd cs)) @ calls_bits 0 cs,
                started := True,
                num_pending_zeros := calls_pending 0 cs \<rparr>)"
      "cs \<noteq> []" "chained cs" "list_all call_ok cs"
      "call_prev (hd cs) = call_cur (hd cs)"
      "call_cur (hd cs) = widths 0 (take 64 (vs @ [v])) ! 0"
      "map call_value cs @ drop 32 (buffer ?s1) = vs @ [v]"
      "call_cur (last cs) = ComputeNumBits ?s1 ! (32 - 1)"
      "32 < length (buffer ?s1) \<longrightarrow> call_next (last cs) = ComputeNumBits ?s1 ! 32"
      by blast
    define s' where "s' = ?s1\<lparr> buffer := drop 32 (buffer ?s1),
                most_recent_num_bits := ComputeNumBits ?s1 ! (32 - 1),
                bit_stream := prelude_code (call_cur (hd cs)) @ calls_bits 0 cs,
                started := True,
                num_pending_zeros := calls_pending 0 cs \<rparr>"
    have mr: "most_recent_num_bits ?s1 \<le> 33" using enc_core_mr [OF core1] by simp
    have W: "ComputeNumBits ?s1 = widths (most_recent_num_bits s) (buffer s @ [v])"
      by (simp add: ComputeNumBits_widths)
    have stable: "\<forall>ws. widths (most_recent_num_bits s') (buffer s' @ ws) ! 0 = call_next (last cs)"
    proof
      fix ws
      have "widths (widths (most_recent_num_bits s) (buffer s @ [v]) ! 31)
              (drop 32 (buffer s @ [v]) @ ws) ! 0
            = widths (most_recent_num_bits s) (buffer s @ [v]) ! 32"
        using widths_stable [of "buffer s @ [v]" "most_recent_num_bits s" ws] l64 mr by simp
      then show "widths (most_recent_num_bits s') (buffer s' @ ws) ! 0 = call_next (last cs)"
        using cs(9) l64 by (simp add: s'_def W)
    qed
    have lv: "64 \<le> length (vs @ [v])"
    proof (cases "started s")
      case True then show ?thesis using st by simp
    next
      case False
      then have "buffer s = vs" using core unfolding enc_core_def by simp
      then show ?thesis using l64 by simp
    qed
    have core': "enc_core (vs @ [v]) s'"
      unfolding enc_core_def
      using cs(2-8) stable
      by (auto simp: s'_def intro!: exI [of _ cs])
    have "enc_inv (vs @ [v]) s'"
      unfolding enc_inv_def using core' nf l64 lv by (simp add: s'_def)
    then show ?thesis using w cs(1) by (simp add: s'_def)
  qed
qed

lemma enc_inv_write_all:
  "enc_inv vs s \<Longrightarrow> \<exists>s'. write_all ws s = Inr s' \<and> enc_inv (vs @ ws) s'"
proof (induction ws arbitrary: vs s)
  case Nil
  then show ?case by simp
next
  case (Cons w ws)
  from enc_inv_Write [OF Cons.prems, of w]
  obtain s1 where s1: "UintStream_Write w s = Inr s1" "enc_inv (vs @ [w]) s1" by blast
  from Cons.IH [OF s1(2)] obtain s' where "write_all ws s1 = Inr s'" "enc_inv ((vs @ [w]) @ ws) s'"
    by blast
  then show ?case using s1(1) by simp
qed

lemma enc_core_flushed: "enc_core vs (s\<lparr> flushed := b \<rparr>) = enc_core vs s"
  by (simp add: enc_core_def)

lemma enc_inv_Flush:
  assumes inv: "enc_inv vs s" and ne: "vs \<noteq> []"
  shows "\<exists>s' cs. UintStream_Flush s = Inr s' \<and> flushed s'
     \<and> bit_stream s' = BitStream_Flush (prelude_code (call_cur (hd cs)) @ calls_bits 0 cs
           @ final_code (calls_pending 0 cs))
     \<and> cs \<noteq> [] \<and> chained cs \<and> list_all call_ok cs
     \<and> call_prev (hd cs) = call_cur (hd cs)
     \<and> call_cur (hd cs) = widths 0 (take 64 vs) ! 0
     \<and> map call_value cs = vs"
proof -
  let ?sf = "s\<lparr> flushed := True \<rparr>"
  have nf: "\<not> flushed s" and len: "length (buffer s) < 64" and core: "enc_core vs s"
    and st: "started s \<longrightarrow> 32 \<le> length (buffer s) \<and> 64 \<le> length vs"
    using inv unfolding enc_inv_def by simp_all
  have bne: "buffer s \<noteq> []"
  proof (cases "started s")
    case True then show ?thesis using st by auto
  next
    case False then show ?thesis using core ne unfolding enc_core_def by simp
  qed
  have coref: "enc_core vs ?sf" using core by (simp add: enc_core_flushed)
  have n: "0 < length (buffer ?sf)" "length (buffer ?sf) \<le> length (buffer ?sf)"
    using bne by simp_all
  have short: "\<not> started ?sf \<longrightarrow> length (buffer ?sf) \<le> 64" using len by simp
  from enc_core_FlushSome [OF coref n short]
  obtain cs where cs: "FlushSome (length (buffer ?sf)) ?sf =
       Inr (?sf\<lparr> buffer := drop (length (buffer ?sf)) (buffer ?sf),
                most_recent_num_bits := ComputeNumBits ?sf ! (length (buffer ?sf) - 1),
                bit_stream := prelude_code (call_cur (hd cs)) @ calls_bits 0 cs,
                started := True,
                num_pending_zeros := calls_pending 0 cs \<rparr>)"
      "cs \<noteq> []" "chained cs" "list_all call_ok cs"
      "call_prev (hd cs) = call_cur (hd cs)"
      "call_cur (hd cs) = widths 0 (take 64 vs) ! 0"
      "map call_value cs @ drop (length (buffer ?sf)) (buffer ?sf) = vs"
    by blast
  define s2 where "s2 = ?sf\<lparr> buffer := drop (length (buffer ?sf)) (buffer ?sf),
                most_recent_num_bits := ComputeNumBits ?sf ! (length (buffer ?sf) - 1),
                bit_stream := prelude_code (call_cur (hd cs)) @ calls_bits 0 cs,
                started := True,
                num_pending_zeros := calls_pending 0 cs \<rparr>"
  have fs: "FlushSome (length (buffer s)) ?sf = Inr s2" using cs(1) by (simp add: s2_def)
  have s2: "flushed s2" "bit_stream s2 = prelude_code (call_cur (hd cs)) @ calls_bits 0 cs"
      "num_pending_zeros s2 = calls_pending 0 cs"
    by (simp_all add: s2_def)
  define s3 where "s3 = s2\<lparr> bit_stream := bit_stream s2 @ final_code (num_pending_zeros s2),
      num_pending_zeros := 0 \<rparr>"
  have pz: "(if num_pending_zeros s2 \<noteq> 0 then FlushPendingZeros s2 else Inr s2) = Inr s3"
    by (cases "num_pending_zeros s2 = 0") (simp_all add: s3_def final_code_def FlushPendingZeros_eq)
  have fl: "UintStream_Flush s = Inr (s3\<lparr> bit_stream := BitStream_Flush (bit_stream s3) \<rparr>)"
    unfolding UintStream_Flush_def using nf bne by (simp add: fs pz)
  have v: "map call_value cs = vs" using cs(7) by simp
  show ?thesis
    using fl cs(2-6) v s2
    by (intro exI [of _ "s3\<lparr> bit_stream := BitStream_Flush (bit_stream s3) \<rparr>"] exI [of _ cs])
       (simp add: s3_def)
qed

lemma encode_state_chain:
  assumes "vs \<noteq> []"
  shows "\<exists>s' cs. encode_state vs = Inr s' \<and> flushed s'
     \<and> bit_stream s' = BitStream_Flush (prelude_code (call_cur (hd cs)) @ calls_bits 0 cs
           @ final_code (calls_pending 0 cs))
     \<and> cs \<noteq> [] \<and> chained cs \<and> list_all call_ok cs
     \<and> call_prev (hd cs) = call_cur (hd cs)
     \<and> call_cur (hd cs) = widths 0 (take 64 vs) ! 0
     \<and> map call_value cs = vs"
proof -
  from enc_inv_write_all [OF enc_inv_new, of vs]
  obtain s where s: "write_all vs UintStream_new = Inr s" "enc_inv vs s" by auto
  from enc_inv_Flush [OF s(2) assms] show ?thesis
    unfolding encode_state_def s(1) by simp
qed

section \<open>Bytes, the prelude and the round trip\<close>

lemma byte_bits:
  "map (bit (horner_sum of_bool 2 [b0, b1, b2, b3, b4, b5, b6, b7] :: u8)) [0..<8]
     = [b0, b1, b2, b3, b4, b5, b6, b7]"
proof (rule nth_equalityI)
  show "length (map (bit (horner_sum of_bool 2 [b0, b1, b2, b3, b4, b5, b6, b7] :: u8)) [0..<8])
      = length [b0, b1, b2, b3, b4, b5, b6, b7]" by simp
next
  fix i assume "i < length (map (bit (horner_sum of_bool 2 [b0, b1, b2, b3, b4, b5, b6, b7] :: u8)) [0..<8])"
  then have i: "i < 8" by simp
  then show "map (bit (horner_sum of_bool 2 [b0, b1, b2, b3, b4, b5, b6, b7] :: u8)) [0..<8] ! i
      = [b0, b1, b2, b3, b4, b5, b6, b7] ! i"
    by (simp add: bit_horner_sum_bit_word_iff del: upt_Suc horner_sum_simps)
qed

lemma unpack_pack:
  "length bs mod 8 = 0 \<Longrightarrow> ReverseBitStream_new (pack_bytes bs) = bs"
proof (induction bs rule: pack_bytes.induct)
  case (1 b0 b1 b2 b3 b4 b5 b6 b7 bs)
  then have "ReverseBitStream_new (pack_bytes bs) = bs" by simp
  then show ?case
    using byte_bits [of b0 b1 b2 b3 b4 b5 b6 b7]
    by (simp add: ReverseBitStream_new_def del: upt_Suc horner_sum_simps)
qed (simp_all add: ReverseBitStream_new_def)

lemma BitStream_Flush_mod: "length (BitStream_Flush bs) mod 8 = 0"
  unfolding BitStream_Flush_def by (simp add: mod_simps) presburger

lemma pack_bytes_nonempty: "8 \<le> length bs \<Longrightarrow> pack_bytes bs \<noteq> []"
  by (induction bs rule: pack_bytes.induct) simp_all

lemma small_word:
  assumes "n < 32"
  shows "take_bit 5 (of_nat n :: u32) = of_nat n" and "unat (of_nat n :: u32) = n"
    and "int_of_u32 (of_nat n) = int n"
proof -
  have "take_bit 5 n = n" using assms by (simp add: take_bit_nat_eq_self)
  then show "take_bit 5 (of_nat n :: u32) = of_nat n"
    by (metis take_bit_of_nat)
  have "int n < 2 ^ 31" using assms by simp
  from unat_of_nat_small [OF this] show u: "unat (of_nat n :: u32) = n" .
  have "unat (of_nat n :: u32) < 2 ^ 31" using u assms by simp
  from int_of_u32_small [OF this] u show "int_of_u32 (of_nat n) = int n" by simp
qed

lemma new_prelude:
  assumes w: "0 \<le> w" "w \<le> 32" and ne: "code \<noteq> []"
    and bits: "ReverseBitStream_new code = prelude_code w @ r"
  shows "ReverseUintStream_new code =
     Inr \<lparr> bit_reader = r, prev_num_bits = w, cur_num_bits = w, zero_runlength = - 1 \<rparr>"
proof -
  consider "w < 31" | "w = 31" | "w = 32" using w by linarith
  then show ?thesis
  proof cases
    case 1
    define n where "n = nat w"
    have n: "n < 31" "w = int n" "word_of_int w = (of_nat n :: u32)" using 1 w by (simp_all add: n_def)
    have n32: "n < 32" using n(1) by simp
    have p: "prelude_code w = map (bit (of_nat n :: u32)) [0..<5]"
      using 1 n(3) by (simp add: prelude_code_def)
    have rd: "ReverseBitStream_Read 5 (ReverseBitStream_new code) = Some (of_nat n, r)"
      unfolding bits p using Read_written [of 5 "of_nat n :: u32" r] small_word(1) [OF n32]
      by simp
    have lt: "\<not> (31 \<le> (of_nat n :: u32))"
      using small_word(2) [OF n32] n(1) by (simp add: word_le_nat_alt)
    show ?thesis
      unfolding ReverseUintStream_new_def using ne lt
      by (simp add: rd small_word(3) [OF n32] n(2))
  next
    case 2
    have p: "prelude_code w = map (bit (31 :: u32)) [0..<5] @ [False]"
      using 2 by (simp add: prelude_code_def)
    have rd: "ReverseBitStream_Read 5 (ReverseBitStream_new code) = Some (31, False # r)"
      unfolding bits p using Read_written [of 5 "31 :: u32" "False # r"] by simp
    show ?thesis
      unfolding ReverseUintStream_new_def using ne 2
      by (simp add: rd Read_one_bit int_of_u32_def)
  next
    case 3
    have p: "prelude_code w = map (bit (31 :: u32)) [0..<5] @ [True]"
      using 3 by (simp add: prelude_code_def)
    have rd: "ReverseBitStream_Read 5 (ReverseBitStream_new code) = Some (31, True # r)"
      unfolding bits p using Read_written [of 5 "31 :: u32" "True # r"] by simp
    show ?thesis
      unfolding ReverseUintStream_new_def using ne 3
      by (simp add: rd Read_one_bit int_of_u32_def)
  qed
qed

lemma length_prelude_code: "5 \<le> length (prelude_code w)"
  by (simp add: prelude_code_def)

text \<open>The encoder's bytes, and what the decoder's constructor makes of them.\<close>

lemma encode_decode_chain:
  assumes "vs \<noteq> []"
  shows "\<exists>code cs r. encode vs = Inr code
     \<and> ReverseBitStream_new code = prelude_code (call_cur (hd cs)) @ r
     \<and> r = calls_bits 0 cs @ final_code (calls_pending 0 cs)
            @ replicate ((8 - length (prelude_code (call_cur (hd cs)) @ calls_bits 0 cs
                @ final_code (calls_pending 0 cs)) mod 8) mod 8) False
     \<and> ReverseUintStream_new code =
         Inr \<lparr> bit_reader = r, prev_num_bits = call_cur (hd cs),
               cur_num_bits = call_cur (hd cs), zero_runlength = - 1 \<rparr>
     \<and> cs \<noteq> [] \<and> chained cs \<and> list_all call_ok cs
     \<and> call_prev (hd cs) = call_cur (hd cs)
     \<and> call_cur (hd cs) = widths 0 (take 64 vs) ! 0
     \<and> map call_value cs = vs"
proof -
  from encode_state_chain [OF assms]
  obtain s' cs where s': "encode_state vs = Inr s'" "flushed s'"
      "bit_stream s' = BitStream_Flush (prelude_code (call_cur (hd cs)) @ calls_bits 0 cs
           @ final_code (calls_pending 0 cs))"
      "cs \<noteq> []" "chained cs" "list_all call_ok cs" "call_prev (hd cs) = call_cur (hd cs)"
      "call_cur (hd cs) = widths 0 (take 64 vs) ! 0" "map call_value cs = vs"
    by blast
  let ?w = "call_cur (hd cs)"
  let ?body = "calls_bits 0 cs @ final_code (calls_pending 0 cs)"
  let ?bits = "prelude_code ?w @ ?body"
  define r where "r = ?body @ replicate ((8 - length ?bits mod 8) mod 8) False"
  define code where "code = pack_bytes (bit_stream s')"
  have enc: "encode vs = Inr code"
    using s'(1,2) by (simp add: encode_def UintStream_Code_def BitStream_Code_def code_def)
  have bs: "bit_stream s' = prelude_code ?w @ r"
    unfolding s'(3) BitStream_Flush_def r_def by simp
  have unp: "ReverseBitStream_new code = prelude_code ?w @ r"
    unfolding code_def using unpack_pack [of "bit_stream s'"] BitStream_Flush_mod bs s'(3) by metis
  have "8 \<le> length (bit_stream s')"
  proof -
    have "5 \<le> length (bit_stream s')" using bs length_prelude_code [of ?w] by simp
    moreover have "length (bit_stream s') mod 8 = 0" using BitStream_Flush_mod s'(3) by metis
    ultimately show ?thesis by presburger
  qed
  then have cne: "code \<noteq> []" unfolding code_def by (rule pack_bytes_nonempty)
  have "call_ok (hd cs)" using s'(4,6) by (simp add: list_all_iff)
  then have wr: "0 \<le> ?w" "?w \<le> 32" using call_ok_cur_range by simp_all
  have rr: "r = calls_bits 0 cs @ final_code (calls_pending 0 cs)
            @ replicate ((8 - length (prelude_code ?w @ calls_bits 0 cs
                @ final_code (calls_pending 0 cs)) mod 8) mod 8) False"
    by (simp add: r_def)
  from new_prelude [OF wr cne unp] show ?thesis
    using enc unp s'(4-9) rr
    by (intro exI [of _ code] exI [of _ cs] exI [of _ r]) blast
qed

lemma roundtrip_runs_bounded:
  assumes "vs \<noteq> []" and "longest_zero_run 0 vs < 2 ^ 31"
  shows "\<exists>code. encode vs = Inr code \<and> decode x (length vs) code = Some vs"
proof -
  from encode_decode_chain [OF assms(1)]
  obtain code cs r pad where c: "encode vs = Inr code"
      "r = calls_bits 0 cs @ final_code (calls_pending 0 cs) @ pad"
      "ReverseUintStream_new code =
         Inr \<lparr> bit_reader = r, prev_num_bits = call_cur (hd cs),
               cur_num_bits = call_cur (hd cs), zero_runlength = - 1 \<rparr>"
      "cs \<noteq> []" "chained cs" "list_all call_ok cs"
      "call_prev (hd cs) = call_cur (hd cs)" "map call_value cs = vs"
    by blast
  have len: "length cs = length vs" using c(8) by (metis length_map)
  have l31: "longest_zero_run 0 (map call_value cs) < 2 ^ 31" using assms(2) c(8) by simp
  have hd: "cs \<noteq> [] \<Longrightarrow> call_prev (hd cs) = call_cur (hd cs) \<and> call_cur (hd cs) = call_cur (hd cs)"
    using c(7) by simp
  from read_all_calls [OF c(5,6) l31 hd, of x pad]
  obtain d' where "read_all x (length cs)
           \<lparr> bit_reader = r, prev_num_bits = call_cur (hd cs),
             cur_num_bits = call_cur (hd cs), zero_runlength = - 1 \<rparr>
         = Some (map call_value cs, d')"
    unfolding c(2) by blast
  then have "decode x (length vs) code = Some vs"
    unfolding decode_def c(3) using len c(8) by simp
  then show ?thesis using c(1) by blast
qed

lemma roundtrip_bounded:
  assumes "vs \<noteq> []" and "length vs < 2 ^ 31"
  shows "\<exists>code. encode vs = Inr code \<and> decode x (length vs) code = Some vs"
proof -
  have "longest_zero_run 0 vs < 2 ^ 31"
    using longest_zero_run_le_length [of 0 vs] assms(2) by simp
  from roundtrip_runs_bounded [OF assms(1) this] show ?thesis .
qed

section \<open>The signed round trip\<close>

lemma IntStream_write_all_eq: "IntStream_write_all ss s = write_all (map zigzag ss) s"
  by (induction ss arbitrary: s) (simp_all add: IntStream_Write_def split: sum.splits)

lemma IntStream_encode_eq: "IntStream_encode ss = encode (map zigzag ss)"
  by (simp add: IntStream_encode_def encode_def encode_state_def IntStream_write_all_eq
      split: sum.splits)

lemma ReverseIntStream_read_all_eq:
  "ReverseIntStream_read_all x n d =
     map_option (\<lambda>(us, d'). (map unzigzag us, d')) (read_all x n d)"
  by (induction n arbitrary: d)
     (simp_all add: ReverseIntStream_Read_def split: option.splits)

lemma ReverseIntStream_decode_eq:
  "ReverseIntStream_decode x n code = map_option (map unzigzag) (decode x n code)"
  by (simp add: ReverseIntStream_decode_def decode_def ReverseIntStream_read_all_eq
      option.map_comp comp_def split_def split: sum.splits)

lemma map_unzigzag_zigzag: "map (unzigzag \<circ> zigzag) ss = ss"
  by (simp add: unzigzag_zigzag comp_def)

lemma IntStream_roundtrip_bounded:
  assumes "ss \<noteq> []" and "length ss < 2 ^ 31"
  shows "\<exists>code. IntStream_encode ss = Inr code
           \<and> ReverseIntStream_decode x (length ss) code = Some ss"
proof -
  have "map zigzag ss \<noteq> []" "length (map zigzag ss) < 2 ^ 31" using assms by simp_all
  from roundtrip_bounded [OF this, of x]
  obtain code where c: "encode (map zigzag ss) = Inr code"
      "decode x (length ss) code = Some (map zigzag ss)" by auto
  have "IntStream_encode ss = Inr code" by (simp add: IntStream_encode_eq c(1))
  moreover have "ReverseIntStream_decode x (length ss) code = Some ss"
    by (simp add: ReverseIntStream_decode_eq c(2) map_unzigzag_zigzag)
  ultimately show ?thesis by blast
qed

text \<open>Claim C8.  For every signed 32-bit \<open>s\<close>, the value \<open>IntStream::Write\<close> hands to the unsigned
  stream, computed with 32-bit wrap-around, is the zig-zag number \<open>2s\<close> (for \<open>s \<ge> 0\<close>) or
  \<open>-(2s) - 1\<close> (for \<open>s < 0\<close>) and lies in \<open>[0, 2^32 - 1]\<close>; the map applied by
  \<open>ReverseIntStream::Read\<close> inverts it; and the round trip through the streams is the
  identity: writing \<open>s\<close> with \<open>IntStream::Write\<close>, flushing, and reading the code with
  \<open>ReverseIntStream::Read\<close> returns true with the value \<open>s\<close>, and so does every value of a
  nonempty sequence \<open>ss\<close> of fewer than \<open>2^31\<close> signed values written and read in order.\<close>

theorem signed_roundtrip:
  assumes "ss \<noteq> []" and "length ss < 2 ^ 31"
  shows "uint (zigzag s) = (if 0 \<le> sint s then 2 * sint s else - (2 * sint s) - 1)
     \<and> 0 \<le> uint (zigzag s) \<and> uint (zigzag s) \<le> 2 ^ 32 - 1
     \<and> unzigzag (zigzag s) = s
     \<and> (\<exists>code. IntStream_encode [s] = Inr code
           \<and> ReverseIntStream_decode x 1 code = Some [s])
     \<and> (\<exists>code. IntStream_encode ss = Inr code
           \<and> ReverseIntStream_decode x (length ss) code = Some ss)"
proof -
  have one: "\<exists>code. IntStream_encode [s] = Inr code
           \<and> ReverseIntStream_decode x 1 code = Some [s]"
    using IntStream_roundtrip_bounded [of "[s]" x] by simp
  have "uint (zigzag s) < 2 ^ 32" using zigzag_range [of s] by (simp add: uint_zigzag)
  then have up: "uint (zigzag s) \<le> 2 ^ 32 - 1" by simp
  show ?thesis
    using one up IntStream_roundtrip_bounded [OF assms, of x]
    by (simp add: uint_zigzag unzigzag_zigzag)
qed

theorem signed_roundtrip_witness:
  "[- 3, 0, 5, - 1] \<noteq> ([] :: i32 list)
   \<and> length [- 3, 0, 5, - 1 :: i32] < 2 ^ 31
   \<and> uint (zigzag (- 3)) = 5
   \<and> unzigzag (zigzag (- 3)) = - 3
   \<and> (\<exists>code. IntStream_encode [- 3] = Inr code
           \<and> ReverseIntStream_decode 0 1 code = Some [- 3])
   \<and> (\<exists>code. IntStream_encode [- 3, 0, 5, - 1] = Inr code
           \<and> ReverseIntStream_decode 0 (length [- 3, 0, 5, - 1 :: i32]) code
               = Some [- 3, 0, 5, - 1])"
proof -
  have 1: "[- 3, 0, 5, - 1] \<noteq> ([] :: i32 list)" by simp
  have 2: "length [- 3, 0, 5, - 1 :: i32] < 2 ^ 31" by simp
  note t = signed_roundtrip [OF 1 2, of "- 3" 0]
  have 3: "sint (- 3 :: i32) = - 3" by simp
  from t have "uint (zigzag (- 3)) = (if 0 \<le> sint (- 3 :: i32) then 2 * sint (- 3 :: i32)
      else - (2 * sint (- 3 :: i32)) - 1)" by (rule conjunct1)
  then have 4: "uint (zigzag (- 3)) = 5" unfolding 3 by simp
  from t 1 2 4 show ?thesis by blast
qed

section \<open>Streams of zeros\<close>

lemma forward_pass_zeros: "p \<le> 1 \<Longrightarrow> forward_pass p (replicate n 0) = replicate n 0"
  by (induction n arbitrary: p) (simp_all add: int_math_max_def)

lemma from_right_zeros: "from_right 0 (replicate n 0) = replicate n 0"
proof (induction n)
  case 0
  then show ?case by simp
next
  case (Suc n)
  have "hd (replicate n (0::int) @ [0]) = 0" by (cases n) simp_all
  then show ?case using Suc by simp
qed

lemma widths_zeros: "widths 0 (replicate n 0) = replicate n 0"
  by (simp add: widths_def forward_pass_zeros from_right_zeros)

lemma FlushSome_calls_zeros:
  assumes b: "buffer s = replicate n 0" and mr: "most_recent_num_bits s = 0" and m: "m \<le> n"
  shows "FlushSome_calls m s = replicate m (0, 0, 0, 0)"
proof (rule nth_equalityI)
  have len: "m \<le> length (buffer s)" using b m by simp
  show "length (FlushSome_calls m s) = length (replicate m (0::int, 0::int, 0::int, 0::u32))"
    using length_FlushSome_calls [OF len] by simp
  fix i assume "i < length (FlushSome_calls m s)"
  then have i: "i < m" using length_FlushSome_calls [OF len] by simp
  have W: "ComputeNumBits s = replicate n 0"
    using b mr by (simp add: ComputeNumBits_widths widths_zeros)
  show "FlushSome_calls m s ! i = replicate m (0, 0, 0, 0) ! i"
    unfolding FlushSome_calls_nth [OF len i] using i m b mr W by simp
qed

lemma calls_zero_calls:
  "calls_bits k (replicate m (0, 0, 0, 0)) = []"
  "calls_pending k (replicate m (0, 0, 0, 0)) = k + of_nat m"
  by (induction m arbitrary: k) (simp_all add: ac_simps)

lemma FlushSome_zeros:
  assumes b: "buffer s = replicate n 0" and mr: "most_recent_num_bits s = 0"
    and m: "0 < m" "m \<le> n"
  shows "FlushSome m s =
     Inr (s\<lparr> buffer := replicate (n - m) 0,
              most_recent_num_bits := 0,
              bit_stream := bit_stream s @ (if started s then [] else prelude_code 0),
              started := True,
              num_pending_zeros := num_pending_zeros s + of_nat m \<rparr>)"
proof -
  have len: "m \<le> length (buffer s)" using b m by simp
  have W: "ComputeNumBits s = replicate n 0"
    using b mr by (simp add: ComputeNumBits_widths widths_zeros)
  have st: "started s \<or> most_recent_num_bits s \<le> 1" "most_recent_num_bits s \<le> 33"
    using mr by simp_all
  show ?thesis
    unfolding FlushSome_eq [OF st m(1) len] FlushSome_calls_zeros [OF b mr m(2)] calls_zero_calls
    using b m W by simp
qed

lemma zeros_inv_new: "zeros_inv 0 UintStream_new"
  by (simp add: zeros_inv_def UintStream_new_def)

lemma zeros_inv_Write:
  assumes "zeros_inv m s"
  shows "\<exists>s'. UintStream_Write 0 s = Inr s' \<and> zeros_inv (Suc m) s'"
proof -
  let ?s1 = "s\<lparr> buffer := buffer s @ [0] \<rparr>"
  let ?n = "length (buffer s)"
  have z: "\<not> flushed s" "most_recent_num_bits s = 0" "?n < 64"
      "\<forall>v \<in> set (buffer s). v = 0"
      "num_pending_zeros s + of_nat ?n = of_nat m"
      "if started s then bit_stream s = prelude_code 0
       else bit_stream s = [] \<and> num_pending_zeros s = 0"
    using assms unfolding zeros_inv_def by simp_all
  have "\<forall>v \<in> set (buffer ?s1). v = 0" using z(4) by simp
  then have "replicate (length (buffer ?s1)) 0 = buffer ?s1" by (rule replicate_length_same)
  then have b1: "buffer ?s1 = replicate (Suc ?n) 0" by simp
  show ?thesis
  proof (cases "Suc ?n < 64")
    case True
    have "UintStream_Write 0 s = Inr ?s1" using True by (simp add: UintStream_Write_def)
    moreover have "zeros_inv (Suc m) ?s1"
      unfolding zeros_inv_def using z True
      by (auto simp: ac_simps)
    ultimately show ?thesis by blast
  next
    case False
    then have n: "Suc ?n = 64" using z(3) by simp
    have w: "UintStream_Write 0 s = FlushSome 32 ?s1"
      using n by (simp add: UintStream_Write_def)
    have mr1: "most_recent_num_bits ?s1 = 0" using z(2) by simp
    have m32: "(0::nat) < 32" "32 \<le> Suc ?n" using n by simp_all
    have f: "FlushSome 32 ?s1 =
       Inr (?s1\<lparr> buffer := replicate (Suc ?n - 32) 0,
              most_recent_num_bits := 0,
              bit_stream := bit_stream ?s1 @ (if started ?s1 then [] else prelude_code 0),
              started := True,
              num_pending_zeros := num_pending_zeros ?s1 + of_nat 32 \<rparr>)"
      using FlushSome_zeros [OF b1 mr1 m32] .
    have sum: "num_pending_zeros s + 32 + 32 = of_nat (Suc m)"
    proof -
      have "num_pending_zeros s + of_nat 63 = of_nat m" using z(5) n by simp
      then have "num_pending_zeros s + of_nat 63 + 1 = of_nat m + 1" by simp
      then show ?thesis by simp
    qed
    have e: "Suc ?n - 32 = 32" using n by simp
    define s' where "s' = ?s1\<lparr> buffer := replicate 32 0,
              most_recent_num_bits := 0,
              bit_stream := bit_stream ?s1 @ (if started ?s1 then [] else prelude_code 0),
              started := True,
              num_pending_zeros := num_pending_zeros ?s1 + of_nat 32 \<rparr>"
    have f': "FlushSome 32 ?s1 = Inr s'" using f unfolding e s'_def .
    have bits: "bit_stream s' = prelude_code 0"
      using z(6) by (auto simp: s'_def split: if_splits)
    have buf: "buffer s' = replicate 32 0" by (simp add: s'_def)
    have "num_pending_zeros s' = num_pending_zeros s + 32" by (simp add: s'_def)
    then have pend: "num_pending_zeros s' + of_nat (length (buffer s')) = of_nat (Suc m)"
      using sum by (simp add: buf)
    have other: "\<not> flushed s'" "most_recent_num_bits s' = 0" "started s'"
      using z(1) by (simp_all add: s'_def)
    have "zeros_inv (Suc m) s'"
      unfolding zeros_inv_def using bits pend other by (simp add: buf)
    then show ?thesis using w f' by simp
  qed
qed

lemma zeros_inv_write_all:
  "zeros_inv m s \<Longrightarrow> \<exists>s'. write_all (replicate k 0) s = Inr s' \<and> zeros_inv (m + k) s'"
proof (induction k arbitrary: m s)
  case 0
  then show ?case by simp
next
  case (Suc k)
  from zeros_inv_Write [OF Suc.prems]
  obtain s1 where s1: "UintStream_Write 0 s = Inr s1" "zeros_inv (Suc m) s1" by blast
  from Suc.IH [OF s1(2)] obtain s' where "write_all (replicate k 0) s1 = Inr s'"
      "zeros_inv (Suc m + k) s'" by blast
  then show ?case using s1(1) by simp
qed

lemma encode_zeros:
  assumes "0 < m"
  shows "encode (replicate m 0) =
     Inr (pack_bytes (BitStream_Flush (prelude_code 0 @ final_code (of_nat m))))"
proof -
  from zeros_inv_write_all [OF zeros_inv_new, of m]
  obtain s where s: "write_all (replicate m 0) UintStream_new = Inr s" "zeros_inv m s" by auto
  let ?n = "length (buffer s)"
  have z: "\<not> flushed s" "most_recent_num_bits s = 0" "?n < 64"
      "\<forall>v \<in> set (buffer s). v = 0" "buffer s \<noteq> []"
      "num_pending_zeros s + of_nat ?n = of_nat m"
      "if started s then bit_stream s = prelude_code 0
       else bit_stream s = [] \<and> num_pending_zeros s = 0"
    using s(2) assms unfolding zeros_inv_def by simp_all
  let ?sf = "s\<lparr> flushed := True \<rparr>"
  have "replicate ?n 0 = buffer s" using z(4) by (rule replicate_length_same)
  then have bf: "buffer ?sf = replicate ?n 0" by simp
  have mrf: "most_recent_num_bits ?sf = 0" using z(2) by simp
  have nn: "0 < ?n" "?n \<le> ?n" using z(5) by simp_all
  define s2 where "s2 = ?sf\<lparr> buffer := replicate (?n - ?n) 0,
              most_recent_num_bits := 0,
              bit_stream := bit_stream ?sf @ (if started ?sf then [] else prelude_code 0),
              started := True,
              num_pending_zeros := num_pending_zeros ?sf + of_nat ?n \<rparr>"
  have f: "FlushSome ?n ?sf = Inr s2"
    using FlushSome_zeros [OF bf mrf nn] by (simp add: s2_def)
  have s2: "flushed s2" "bit_stream s2 = prelude_code 0" "num_pending_zeros s2 = of_nat m"
    using z(6,7) by (auto simp: s2_def split: if_splits)
  define s3 where "s3 = s2\<lparr> bit_stream := bit_stream s2 @ final_code (num_pending_zeros s2),
      num_pending_zeros := 0 \<rparr>"
  have pz: "(if num_pending_zeros s2 \<noteq> 0 then FlushPendingZeros s2 else Inr s2) = Inr s3"
    by (cases "num_pending_zeros s2 = 0") (simp_all add: s3_def final_code_def FlushPendingZeros_eq)
  have fl: "UintStream_Flush s = Inr (s3\<lparr> bit_stream := BitStream_Flush (bit_stream s3) \<rparr>)"
    unfolding UintStream_Flush_def using z(1,5) by (simp add: f pz)
  show ?thesis
    unfolding encode_def encode_state_def s(1)
    using fl s2 by (simp add: s3_def UintStream_Code_def BitStream_Code_def)
qed

lemma of_nat_2_32: "(of_nat (2 ^ 32) :: u32) = 0"
  by simp

lemma encode_2_32_zeros: "encode (replicate (2 ^ 32) 0) = Inr [0x00]"
proof -
  have "encode (replicate (2 ^ 32) 0) =
     Inr (pack_bytes (BitStream_Flush (prelude_code 0 @ final_code (of_nat (2 ^ 32)))))"
    by (rule encode_zeros) simp
  also have "pack_bytes (BitStream_Flush (prelude_code 0 @ final_code (of_nat (2 ^ 32)))) = [0x00]"
    unfolding of_nat_2_32 by code_simp
  finally show ?thesis .
qed

lemma new_0x00:
  "ReverseUintStream_new [0x00] =
     Inr \<lparr> bit_reader = [False, False, False], prev_num_bits = 0, cur_num_bits = 0,
           zero_runlength = - 1 \<rparr>"
  by code_simp

lemma Read_0x00:
  "ReverseUintStream_Read x
     \<lparr> bit_reader = [False, False, False], prev_num_bits = 0, cur_num_bits = 0,
       zero_runlength = - 1 \<rparr> = None"
proof -
  have "read_unary 0 [False, False, False] = None" by code_simp
  then show ?thesis
    by (simp add: ReverseUintStream_Read_def next_num_bits_of_def)
qed

lemma decode_0x00: "0 < n \<Longrightarrow> decode x n [0x00] = None"
  by (cases n) (simp_all add: decode_def new_0x00 Read_0x00)

subsection \<open>A run of \<open>2^31 + 2\<close> zeros\<close>

lemma num_bits_eqI:
  assumes "2 ^ h \<le> unat x" and "unat x < 2 ^ Suc h"
  shows "num_bits x = int (Suc h)"
proof -
  have "num_bits x \<le> int (Suc h)" using assms(2) by (simp only: num_bits_le_iff)
  moreover have "\<not> num_bits x \<le> int h" using assms(1) by (simp only: num_bits_le_iff not_less)
  ultimately show ?thesis by linarith
qed

lemma num_bits_long_run: "num_bits (0x80000002 :: u32) = 32"
  using num_bits_eqI [of 31 "0x80000002 :: u32"] by simp

lemma run_code_long_run:
  "run_code (0x80000002 :: u32) = replicate 31 False @ [True] @ [False, True] @ replicate 29 False"
proof -
  have "map (bit (0x80000002 :: u32)) [0..<31] = [False, True] @ replicate 29 False"
    by code_simp
  then show ?thesis unfolding run_code_def num_bits_long_run by simp
qed

lemma final_code_long_run:
  "final_code (0x80000002 :: u32) = replicate 31 False @ [True] @ [False, True] @ replicate 29 False"
  unfolding final_code_def run_code_long_run by simp

lemma bytes_long_run:
  "pack_bytes (BitStream_Flush (prelude_code 0 @ final_code (0x80000002 :: u32)))
      = [0x00, 0x00, 0x00, 0x00, 0x50, 0x00, 0x00, 0x00, 0x00]"
  unfolding final_code_long_run by code_simp

lemma encode_long_run:
  "encode (replicate (2 ^ 31 + 2) 0) = Inr [0x00, 0x00, 0x00, 0x00, 0x50, 0x00, 0x00, 0x00, 0x00]"
proof -
  have k: "(of_nat (2 ^ 31 + 2) :: u32) = 0x80000002" by simp
  have "encode (replicate (2 ^ 31 + 2) 0) =
     Inr (pack_bytes (BitStream_Flush (prelude_code 0 @ final_code (of_nat (2 ^ 31 + 2)))))"
    by (rule encode_zeros) simp
  then show ?thesis unfolding k bytes_long_run .
qed

lemma new_long_run:
  "ReverseUintStream_new [0x00, 0x00, 0x00, 0x00, 0x50, 0x00, 0x00, 0x00, 0x00] =
     Inr \<lparr> bit_reader = replicate 31 False @ [True] @ [False, True] @ replicate 29 False
                  @ replicate 4 False,
           prev_num_bits = 0, cur_num_bits = 0, zero_runlength = - 1 \<rparr>"
  by code_simp

lemma first_Read_long_run:
  "ReverseUintStream_Read x
     \<lparr> bit_reader = replicate 31 False @ [True] @ [False, True] @ replicate 29 False
                  @ replicate 4 False,
       prev_num_bits = 0, cur_num_bits = 0, zero_runlength = - 1 \<rparr>
   = Some (0, \<lparr> bit_reader = replicate 4 False, prev_num_bits = 0, cur_num_bits = 0,
                 zero_runlength = - 2147483648 \<rparr>)"
proof -
  have u: "read_unary 0 (replicate 31 False @ [True] @ [False, True] @ replicate 29 False
                  @ replicate 4 False)
         = Some (31, [False, True] @ replicate 29 False @ replicate 4 False)"
    using read_unary_code [of 0 31 "[False, True] @ replicate 29 False @ replicate 4 False"]
    by simp
  have f: "ReverseBitStream_Read 31 ([False, True] @ replicate 29 False @ replicate 4 False)
         = Some (2, replicate 4 False)"
    by code_simp
  have z: "wrap_int (int_of_u32 (push_bit (nat 31) 1 + 2) - 2) = - 2147483648"
    by code_simp
  have o: "int_of_u32 (push_bit (nat 31) 1 + 2) \<noteq> 1" by code_simp
  have nx: "next_num_bits_of x
     \<lparr> bit_reader = replicate 31 False @ [True] @ [False, True] @ replicate 29 False
                  @ replicate 4 False,
       prev_num_bits = 0, cur_num_bits = 0, zero_runlength = - 1 \<rparr>
     = Some (0, \<lparr> bit_reader = replicate 4 False, prev_num_bits = 0, cur_num_bits = 0,
                 zero_runlength = - 2147483648 \<rparr>)"
  proof -
    have u': "read_unary 0
        (replicate 31 False @ True # False # True # replicate 29 False @ replicate 4 False)
      = Some (31, False # True # replicate 29 False @ replicate 4 False)"
      using u by simp
    show ?thesis
      using f z o by (simp add: next_num_bits_of_def u')
  qed
  show ?thesis
    unfolding ReverseUintStream_Read_def Let_def nx
    by (simp add: top_bit_redundant_def Read_zero_bits)
qed

lemma second_Read_long_run:
  "ReverseUintStream_Read x
     \<lparr> bit_reader = replicate 4 False, prev_num_bits = 0, cur_num_bits = 0,
       zero_runlength = - 2147483648 \<rparr> = None"
proof -
  have "read_unary 0 (replicate 4 False) = None" by code_simp
  then show ?thesis
    by (simp add: ReverseUintStream_Read_def next_num_bits_of_def)
qed

text \<open>The encoder codes a run of \<open>2^31 + 2\<close> zeros with \<open>h = 31\<close>, which the guard of the
  decoder's unary loop admits; but \<open>(1 << 31) + x\<close> does not fit the \<open>int\<close> it is stored in, the
  run length left is negative, and the second \<open>Read\<close> takes the bits after the code for a
  new zero-run code.\<close>

lemma long_zero_run_not_decoded:
  "encode (replicate (2 ^ 31 + 2) 0) = Inr [0x00, 0x00, 0x00, 0x00, 0x50, 0x00, 0x00, 0x00, 0x00]
   \<and> ReverseUintStream_new [0x00, 0x00, 0x00, 0x00, 0x50, 0x00, 0x00, 0x00, 0x00] =
       Inr \<lparr> bit_reader = replicate 31 False @ [True] @ [False, True] @ replicate 29 False
                    @ replicate 4 False,
             prev_num_bits = 0, cur_num_bits = 0, zero_runlength = - 1 \<rparr>
   \<and> ReverseUintStream_Read x
         \<lparr> bit_reader = replicate 31 False @ [True] @ [False, True] @ replicate 29 False
                    @ replicate 4 False,
           prev_num_bits = 0, cur_num_bits = 0, zero_runlength = - 1 \<rparr>
       = Some (0, \<lparr> bit_reader = replicate 4 False, prev_num_bits = 0, cur_num_bits = 0,
                     zero_runlength = - 2147483648 \<rparr>)
   \<and> ReverseUintStream_Read x
         \<lparr> bit_reader = replicate 4 False, prev_num_bits = 0, cur_num_bits = 0,
           zero_runlength = - 2147483648 \<rparr> = None
   \<and> decode x (length (replicate (2 ^ 31 + 2) (0::u32)))
         [0x00, 0x00, 0x00, 0x00, 0x50, 0x00, 0x00, 0x00, 0x00] = None"
proof -
  have n: "(2::nat) ^ 31 + 2 = Suc (Suc (2 ^ 31))" by simp
  have "decode x (Suc (Suc (2 ^ 31))) [0x00, 0x00, 0x00, 0x00, 0x50, 0x00, 0x00, 0x00, 0x00] = None"
    unfolding decode_def new_long_run
    by (simp only: read_all.simps first_Read_long_run second_Read_long_run
        sum.case option.case prod.case option.map)
  then have "decode x (length (replicate (2 ^ 31 + 2) (0::u32)))
         [0x00, 0x00, 0x00, 0x00, 0x50, 0x00, 0x00, 0x00, 0x00] = None"
    unfolding length_replicate n .
  then show ?thesis
    using encode_long_run new_long_run first_Read_long_run second_Read_long_run by blast
qed

section \<open>A zero-run code cut off before its field\<close>

lemma new_0x80:
  "ReverseUintStream_new [0x80] =
     Inr \<lparr> bit_reader = [False, False, True], prev_num_bits = 0, cur_num_bits = 0,
           zero_runlength = - 1 \<rparr>"
  by code_simp

lemma unary_0x80: "read_unary 0 [False, False, True] = Some (2, [])"
  by code_simp

lemma read_0x80:
  "map_option fst (ReverseUintStream_Read x
        \<lparr> bit_reader = [False, False, True], prev_num_bits = 0, cur_num_bits = 0,
           zero_runlength = - 1 \<rparr>) = Some 0"
  by (simp add: ReverseUintStream_Read_def next_num_bits_of_def unary_0x80
      ReverseBitStream_Read_def top_bit_redundant_def Let_def)

text \<open>Claim C4 fails on the code.  The one-byte buffer \<open>0x80\<close> holds the prelude 0 and the
  unary part 0, 0, 1 of a zero-run code; the buffer ends before the two-bit field that
  should follow.  The bit source refuses the two-bit read, but \<open>Read\<close> does not look at
  that result: whatever the uninitialised \<open>x\<close> holds, it returns true with the value 0.\<close>

theorem Read_true_on_truncated_run_field:
  "ReverseUintStream_new [0x80] =
     Inr \<lparr> bit_reader = [False, False, True], prev_num_bits = 0, cur_num_bits = 0,
           zero_runlength = - 1 \<rparr>
   \<and> read_unary 0 [False, False, True] = Some (2, [])
   \<and> ReverseBitStream_Read 2 [] = None
   \<and> map_option fst (ReverseUintStream_Read x
        \<lparr> bit_reader = [False, False, True], prev_num_bits = 0, cur_num_bits = 0,
           zero_runlength = - 1 \<rparr>) = Some 0
   \<and> decode x 1 [0x80] = Some [0]"
proof -
  have "decode x 1 [0x80] = Some [0]"
    using read_0x80 [of x] by (auto simp: decode_def new_0x80 split: option.splits)
  then show ?thesis
    using new_0x80 unary_0x80 read_0x80 by (simp add: ReverseBitStream_Read_def)
qed

section \<open>The unsigned round trip\<close>

text \<open>Claim C1, as the specification states it, at \<open>2^32\<close> zeros.  The count of pending zeros is
  a \<open>uint32_t\<close> and comes back to 0, so \<open>Flush\<close> writes no zero-run code: the code is the one
  byte of the prelude, and on it \<open>Read\<close> called once for each value written does not return
  true every time.\<close>

theorem roundtrip_fails_for_2_32_zeros:
  "encode (replicate (2 ^ 32) 0) = Inr [0x00]
   \<and> decode 0 (length (replicate (2 ^ 32) (0::u32))) [0x00] = None"
proof -
  have "decode 0 (2 ^ 32) [0x00] = None" by (rule decode_0x00) simp
  then show ?thesis using encode_2_32_zeros by (simp only: length_replicate simp_thms)
qed

text \<open>Claim C1, amended.  For every nonempty sequence of unsigned 32-bit values in which
  every run of consecutive zeros is shorter than \<open>2^31\<close> (so for every nonempty sequence of
  fewer than \<open>2^31\<close> values): writing each value with \<open>UintStream::Write\<close>, calling \<open>Flush\<close>
  once, constructing a \<open>ReverseUintStream\<close> on the bytes of \<open>Code()\<close> and calling \<open>Read\<close> once for
  each value written, every \<open>Read\<close> returns true and the outputs are the values written, in
  order.\<close>

theorem encode_decode_roundtrip:
  assumes "vs \<noteq> []" and "longest_zero_run 0 vs < 2 ^ 31"
  shows "\<exists>code. encode vs = Inr code \<and> decode x (length vs) code = Some vs"
  using assms by (rule roundtrip_runs_bounded)

theorem encode_decode_roundtrip_witness:
  "[7, 0, 0, 7] \<noteq> ([] :: u32 list) \<and> longest_zero_run 0 [7, 0, 0, 7] < 2 ^ 31
   \<and> (\<exists>code. encode [7, 0, 0, 7] = Inr code
         \<and> decode 0 (length [7, 0, 0, 7 :: u32]) code = Some [7, 0, 0, 7])"
proof -
  have 1: "[7, 0, 0, 7] \<noteq> ([] :: u32 list)" by simp
  have 2: "longest_zero_run 0 [7, 0, 0, 7] < 2 ^ 31" by simp
  from encode_decode_roundtrip [OF 1 2, of 0] 1 2 show ?thesis by blast
qed

section \<open>The prelude\<close>

text \<open>Claim C7.  For every nonempty input let \<open>w0\<close> be the width that \<open>ComputeNumBits\<close> plans for
  the first value at the first flush (whose buffer holds the first 64 values at most).  Then
  \<open>w0\<close> is between 0 and 32; the prelude that \<open>FlushSome\<close> writes is \<open>w0\<close> in 5 bits when
  \<open>w0 < 31\<close>, and 31 in 5 bits followed by one bit holding \<open>w0 - 31\<close> when \<open>w0\<close> is 31 or 32,
  so 5 or 6 bits; the encoded bytes begin with this prelude; and the constructor of
  \<open>ReverseUintStream\<close> consumes exactly the prelude and sets both \<open>prev_num_bits\<close> and
  \<open>cur_num_bits\<close> to \<open>w0\<close>, with \<open>zero_runlength = -1\<close>.\<close>

theorem prelude_carries_first_width:
  assumes "vs \<noteq> []"
  shows "let w0 = ComputeNumBits (UintStream_new\<lparr> buffer := take 64 vs \<rparr>) ! 0 in
     0 \<le> w0 \<and> w0 \<le> 32
     \<and> write_prelude w0 [] =
         (if w0 < 31 then BitStream_Write 5 (word_of_int w0) []
          else BitStream_Write 1 (word_of_int (w0 - 31)) (BitStream_Write 5 31 []))
     \<and> length (write_prelude w0 []) = (if w0 < 31 then 5 else 6)
     \<and> (\<exists>code r. encode vs = Inr code
           \<and> ReverseBitStream_new code = write_prelude w0 [] @ r
           \<and> ReverseUintStream_new code =
               Inr \<lparr> bit_reader = r, prev_num_bits = w0, cur_num_bits = w0,
                     zero_runlength = - 1 \<rparr>)"
proof -
  define w0 where "w0 = ComputeNumBits (UintStream_new\<lparr> buffer := take 64 vs \<rparr>) ! 0"
  have w0: "w0 = widths 0 (take 64 vs) ! 0"
    by (simp add: w0_def ComputeNumBits_widths UintStream_new_def)
  from encode_decode_chain [OF assms]
  obtain code cs r where c: "encode vs = Inr code"
      "ReverseBitStream_new code = prelude_code (call_cur (hd cs)) @ r"
      "ReverseUintStream_new code =
         Inr \<lparr> bit_reader = r, prev_num_bits = call_cur (hd cs),
               cur_num_bits = call_cur (hd cs), zero_runlength = - 1 \<rparr>"
      "cs \<noteq> []" "list_all call_ok cs" "call_cur (hd cs) = widths 0 (take 64 vs) ! 0"
    by blast
  have cw: "call_cur (hd cs) = w0" using c(6) w0 by simp
  have "call_ok (hd cs)" using c(4,5) by (simp add: list_all_iff)
  then have r: "0 \<le> w0" "w0 \<le> 32"
    using call_ok_cur_range [of "hd cs"] cw by simp_all
  have wp: "write_prelude w0 [] =
         (if w0 < 31 then BitStream_Write 5 (word_of_int w0) []
          else BitStream_Write 1 (word_of_int (w0 - 31)) (BitStream_Write 5 31 []))"
  proof -
    consider "w0 < 31" | "w0 = 31" | "w0 = 32" using r by linarith
    then show ?thesis by cases (simp_all add: write_prelude_def Let_def)
  qed
  have len: "length (write_prelude w0 []) = (if w0 < 31 then 5 else 6)"
    unfolding wp by (simp add: BitStream_Write_def)
  have ex: "\<exists>code r. encode vs = Inr code
           \<and> ReverseBitStream_new code = write_prelude w0 [] @ r
           \<and> ReverseUintStream_new code =
               Inr \<lparr> bit_reader = r, prev_num_bits = w0, cur_num_bits = w0,
                     zero_runlength = - 1 \<rparr>"
    using c(1,2,3) unfolding cw by (auto simp: write_prelude_eq)
  show ?thesis
    unfolding Let_def w0_def [symmetric] using r wp len ex by blast
qed

theorem prelude_carries_first_width_witness:
  "[5] \<noteq> ([] :: u32 list)
   \<and> ComputeNumBits (UintStream_new\<lparr> buffer := take 64 [5] \<rparr>) ! 0 = 3
   \<and> write_prelude 3 [] = [True, True, False, False, False]
   \<and> (\<exists>code r. encode [5] = Inr code
           \<and> ReverseBitStream_new code = write_prelude 3 [] @ r
           \<and> ReverseUintStream_new code =
               Inr \<lparr> bit_reader = r, prev_num_bits = 3, cur_num_bits = 3,
                     zero_runlength = - 1 \<rparr>)"
proof -
  have 1: "[5] \<noteq> ([] :: u32 list)" by simp
  have 2: "ComputeNumBits (UintStream_new\<lparr> buffer := take 64 [5] \<rparr>) ! 0 = 3" by code_simp
  have 3: "write_prelude 3 [] = [True, True, False, False, False]" by code_simp
  from prelude_carries_first_width [OF 1] 1 2 3 show ?thesis
    unfolding Let_def 2 by blast
qed

section \<open>The zero-run code\<close>

lemma read_all_None:
  "read_all x m d = None \<Longrightarrow> m \<le> n \<Longrightarrow> read_all x n d = None"
  using read_all_append [of x m "n - m" d] by simp

lemma encode_2_32_plus_1_zeros: "encode (replicate (2 ^ 32 + 1) 0) = Inr [0x20]"
proof -
  have k: "(of_nat (2 ^ 32 + 1) :: u32) = 1" by simp
  have "encode (replicate (2 ^ 32 + 1) 0) =
     Inr (pack_bytes (BitStream_Flush (prelude_code 0 @ final_code (of_nat (2 ^ 32 + 1)))))"
    by (rule encode_zeros) simp
  also have "pack_bytes (BitStream_Flush (prelude_code 0 @ final_code (of_nat (2 ^ 32 + 1))))
      = [0x20]"
    unfolding k by code_simp
  finally show ?thesis .
qed

lemma decode_0x20: "4 \<le> n \<Longrightarrow> decode 0 n [0x20] = None"
proof -
  assume n: "4 \<le> n"
  have d: "ReverseUintStream_new [0x20] =
      Inr \<lparr> bit_reader = [True, False, False], prev_num_bits = 0, cur_num_bits = 0,
            zero_runlength = - 1 \<rparr>"
    by code_simp
  have "read_all 0 4 \<lparr> bit_reader = [True, False, False], prev_num_bits = 0, cur_num_bits = 0,
            zero_runlength = - 1 \<rparr> = None"
    by code_simp
  from read_all_None [OF this n] show ?thesis by (simp add: decode_def d)
qed

text \<open>Claim C6, as the specification states it, at a run of \<open>2^32 + 1\<close> zero-width symbols.  The
  count of pending zeros is a \<open>uint32_t\<close>, so the run is coded as a run of one: the whole
  code, prelude included, is the byte that codes the single value 0, not a zero-run code of
  65 bits, and the decoder reads one zero-width symbol from it, not \<open>2^32 + 1\<close>.\<close>

theorem zero_run_of_2_32_plus_1_coded_as_run_of_1:
  "encode (replicate (2 ^ 32 + 1) 0) = Inr [0x20]
   \<and> encode [0] = Inr [0x20]
   \<and> decode 0 2 [0x20] = Some [0, 1]
   \<and> decode 0 (length (replicate (2 ^ 32 + 1) (0::u32))) [0x20] = None"
proof -
  have 1: "encode [0] = Inr [0x20]" by code_simp
  have 2: "decode 0 2 [0x20] = Some [0, 1]" by code_simp
  have "decode 0 (2 ^ 32 + 1) [0x20] = None" by (rule decode_0x20) simp
  then show ?thesis
    using encode_2_32_plus_1_zeros 1 2 by (simp only: length_replicate simp_thms)
qed

lemma word_mod_2p_take_bit: "(k::u32) mod 2 ^ h = take_bit h k"
  by (simp add: take_bit_eq_mod)

lemma run_code_Write:
  assumes "h < 32"
  shows "BitStream_Write (int h) (k mod 2 ^ h) (BitStream_Write (int h + 1) (2 ^ h) bs)
           = bs @ replicate h False @ [True] @ map (bit k) [0..<h]"
proof -
  have "map (bit (take_bit h k)) [0..<h] = map (bit (k::u32)) [0..<h]"
    by (auto simp: bit_take_bit_iff)
  then show ?thesis
    using unary_bits [OF assms]
    by (simp add: BitStream_Write_def word_mod_2p_take_bit nat_int_Suc del: upt_Suc)
qed

lemma WriteCode_all_zero_width:
  "list_all (\<lambda>a. call_cur a = 0) zs \<Longrightarrow>
   WriteCode_all zs u =
     Inr (u\<lparr> num_pending_zeros := num_pending_zeros u + of_nat (length zs) \<rparr>)"
proof (induction zs arbitrary: u)
  case Nil
  then show ?case by simp
next
  case (Cons a zs)
  obtain p c n v where a: "a = (p, c, n, v)" by (cases a)
  then have c: "c = 0" using Cons.prems by simp
  have "list_all (\<lambda>a. call_cur a = 0) zs" using Cons.prems by simp
  from Cons.IH [OF this] show ?case
    by (simp add: a c WriteCode_zero ac_simps)
qed

text \<open>Claim C6, amended.  Let \<open>k\<close> be the count of pending zeros, \<open>1 \<le> k < 2^32\<close>, and
  \<open>h = nb(k) - 1\<close>, so that \<open>2^h \<le> k < 2^(h+1)\<close>.  \<open>WriteCode\<close> run over symbols of width zero
  writes nothing and adds their number to the count.  \<open>FlushPendingZeros\<close> emits one zero-run
  code: \<open>h + 1\<close> bits holding \<open>1 << h\<close> (that is \<open>h\<close> zeros, then a one) followed by \<open>h\<close> bits
  holding \<open>k mod 2^h\<close>, \<open>2h + 1\<close> bits in all, and resets the count; \<open>WriteCode\<close> for the next
  symbol of nonzero width emits this code before the code of the symbol.  On these bits
  the decoder reads the unary \<open>h\<close> and then the field \<open>x = k mod 2^h\<close> of \<open>h\<close> bits, with
  \<open>(1 << h) + x = k\<close>; and when \<open>k < 2^31\<close>, \<open>Read\<close> called \<open>k\<close> times from width zero returns
  true with the value 0 each time, has consumed the code and nothing else, and leaves the
  width 1 for the symbol after the run.\<close>

theorem zero_run_code:
  assumes "num_pending_zeros s = k" and "k \<noteq> 0"
  shows "let h = nat (num_bits k - 1) in
     2 ^ h \<le> unat k \<and> unat k < 2 ^ (h + 1)
     \<and> (list_all (\<lambda>a. call_cur a = 0) zs \<longrightarrow>
          WriteCode_all zs u =
            Inr (u\<lparr> num_pending_zeros := num_pending_zeros u + of_nat (length zs) \<rparr>))
     \<and> (call_ok (p, c, n, v) \<and> c \<noteq> 0 \<longrightarrow>
          WriteCode p c n v s =
            Inr (s\<lparr> bit_stream :=
                       BitStream_Write (int h) (k mod 2 ^ h)
                         (BitStream_Write (int h + 1) (2 ^ h) (bit_stream s))
                       @ delta_code (n - c) @ value_code p c n v,
                     num_pending_zeros := 0 \<rparr>))
     \<and> FlushPendingZeros s =
         Inr (s\<lparr> bit_stream :=
                    BitStream_Write (int h) (k mod 2 ^ h)
                      (BitStream_Write (int h + 1) (2 ^ h) (bit_stream s)),
                  num_pending_zeros := 0 \<rparr>)
     \<and> BitStream_Write (int h) (k mod 2 ^ h) (BitStream_Write (int h + 1) (2 ^ h) [])
         = replicate h False @ [True] @ map (bit k) [0..<h]
     \<and> length (BitStream_Write (int h) (k mod 2 ^ h) (BitStream_Write (int h + 1) (2 ^ h) []))
         = 2 * h + 1
     \<and> read_unary 0
           (BitStream_Write (int h) (k mod 2 ^ h) (BitStream_Write (int h + 1) (2 ^ h) []) @ r)
         = Some (int h, map (bit k) [0..<h] @ r)
     \<and> ReverseBitStream_Read (int h) (map (bit k) [0..<h] @ r) = Some (k mod 2 ^ h, r)
     \<and> push_bit h 1 + k mod 2 ^ h = k
     \<and> (unat k < 2 ^ 31 \<longrightarrow>
          read_all x (unat k)
            \<lparr> bit_reader =
                BitStream_Write (int h) (k mod 2 ^ h) (BitStream_Write (int h + 1) (2 ^ h) [])
                  @ r,
              prev_num_bits = q, cur_num_bits = 0, zero_runlength = - 1 \<rparr>
          = Some (replicate (unat k) 0,
                  \<lparr> bit_reader = r, prev_num_bits = 0, cur_num_bits = 1,
                    zero_runlength = - 1 \<rparr>))"
proof -
  define h where "h = nat (num_bits k - 1)"
  have nb: "num_bits k = int (Suc h)" using num_bits_pos [OF assms(2)] by (simp add: h_def)
  have h32: "h < 32" using num_bits_le_32 [of k] nb by simp
  have up: "unat k < 2 ^ (h + 1)"
    using nb num_bits_le_iff [of k "Suc h"] by simp
  have lo: "2 ^ h \<le> unat k"
  proof -
    have "\<not> num_bits k \<le> int h" using nb by simp
    then show ?thesis by (simp only: num_bits_le_iff not_less)
  qed
  have w: "BitStream_Write (int h) (k mod 2 ^ h) (BitStream_Write (int h + 1) (2 ^ h) bs)
           = bs @ replicate h False @ [True] @ map (bit k) [0..<h]" for bs
    using run_code_Write [OF h32] .
  have rc: "run_code k = replicate h False @ [True] @ map (bit k) [0..<h]"
    by (simp add: run_code_def h_def)
  have z: "list_all (\<lambda>a. call_cur a = 0) zs \<longrightarrow>
          WriteCode_all zs u =
            Inr (u\<lparr> num_pending_zeros := num_pending_zeros u + of_nat (length zs) \<rparr>)"
    using WriteCode_all_zero_width [of zs u] by blast
  have nz: "call_ok (p, c, n, v) \<and> c \<noteq> 0 \<longrightarrow>
          WriteCode p c n v s =
            Inr (s\<lparr> bit_stream :=
                       (bit_stream s @ replicate h False @ [True] @ map (bit k) [0..<h])
                       @ delta_code (n - c) @ value_code p c n v,
                     num_pending_zeros := 0 \<rparr>)"
    using WriteCode_nonzero [of p c n v s] assms by (simp add: final_code_def rc)
  have f: "FlushPendingZeros s =
         Inr (s\<lparr> bit_stream := bit_stream s @ replicate h False @ [True] @ map (bit k) [0..<h],
                  num_pending_zeros := 0 \<rparr>)"
    using FlushPendingZeros_eq [of s] assms by (simp add: rc)
  have u: "read_unary 0 ((replicate h False @ [True] @ map (bit k) [0..<h]) @ r)
         = Some (int h, map (bit k) [0..<h] @ r)"
    using read_unary_code [of 0 h "map (bit k) [0..<h] @ r"] h32 by simp
  have fld: "ReverseBitStream_Read (int h) (map (bit k) [0..<h] @ r) = Some (k mod 2 ^ h, r)"
    using Read_written [of h k r] by (simp add: word_mod_2p_take_bit)
  have sum: "push_bit h 1 + k mod 2 ^ h = k"
    using split_top_bit [OF nb] by (simp add: word_mod_2p_take_bit)
  have rd: "unat k < 2 ^ 31 \<longrightarrow>
          read_all x (unat k)
            \<lparr> bit_reader = (replicate h False @ [True] @ map (bit k) [0..<h]) @ r,
              prev_num_bits = q, cur_num_bits = 0, zero_runlength = - 1 \<rparr>
          = Some (replicate (unat k) 0,
                  \<lparr> bit_reader = r, prev_num_bits = 0, cur_num_bits = 1,
                    zero_runlength = - 1 \<rparr>)"
    using read_all_run [OF assms(2), of x r q] by (simp add: rc)
  have len: "length (replicate h False @ [True] @ map (bit k) [0..<h]) = 2 * h + 1" by simp
  show ?thesis
    unfolding Let_def h_def [symmetric] w [of "[]"] w [of "bit_stream s"] append_Nil
    using lo up z nz f u fld sum rd len by blast
qed

theorem zero_run_code_witness:
  "num_pending_zeros (UintStream_new\<lparr> num_pending_zeros := 5 \<rparr>) = 5 \<and> (5::u32) \<noteq> 0
   \<and> nat (num_bits 5 - 1) = 2
   \<and> FlushPendingZeros (UintStream_new\<lparr> num_pending_zeros := 5 \<rparr>) =
         Inr (UintStream_new\<lparr> bit_stream := [False, False, True, True, False],
                num_pending_zeros := 0 \<rparr>)
   \<and> read_all 0 5
        \<lparr> bit_reader = [False, False, True, True, False] @ [True, True],
          prev_num_bits = 1, cur_num_bits = 0, zero_runlength = - 1 \<rparr>
      = Some ([0, 0, 0, 0, 0],
              \<lparr> bit_reader = [True, True], prev_num_bits = 0, cur_num_bits = 1,
                zero_runlength = - 1 \<rparr>)"
proof -
  let ?s = "UintStream_new\<lparr> num_pending_zeros := 5 \<rparr>"
  have 1: "num_pending_zeros ?s = 5" by simp
  have 2: "(5::u32) \<noteq> 0" by simp
  have h: "nat (num_bits 5 - 1) = 2" by code_simp
  have b: "map (bit (5::u32)) [0..<2] = [True, False]" by code_simp
  have u: "unat (5::u32) = 5" by simp
  have r5: "replicate 5 (0::u32) = [0, 0, 0, 0, 0]" by (simp add: numeral_eq_Suc)
  have r2: "replicate 2 False = [False, False]" by (simp add: numeral_2_eq_2)
  have e: "bit_stream ?s = []" by (simp add: UintStream_new_def)
  from zero_run_code [OF 1 2, of "[]" ?s 0 0 0 0 "[True, True]" 0 1]
  have t: "FlushPendingZeros ?s =
         Inr (?s\<lparr> bit_stream :=
                    BitStream_Write (int 2) (5 mod 2 ^ 2)
                      (BitStream_Write (int 2 + 1) (2 ^ 2) (bit_stream ?s)),
                  num_pending_zeros := 0 \<rparr>)"
      "BitStream_Write (int 2) (5 mod 2 ^ 2) (BitStream_Write (int 2 + 1) (2 ^ 2) [])
         = replicate 2 False @ [True] @ map (bit (5::u32)) [0..<2]"
      "unat (5::u32) < 2 ^ 31 \<longrightarrow>
          read_all 0 (unat (5::u32))
            \<lparr> bit_reader =
                BitStream_Write (int 2) (5 mod 2 ^ 2) (BitStream_Write (int 2 + 1) (2 ^ 2) [])
                  @ [True, True],
              prev_num_bits = 1, cur_num_bits = 0, zero_runlength = - 1 \<rparr>
          = Some (replicate (unat (5::u32)) 0,
                  \<lparr> bit_reader = [True, True], prev_num_bits = 0, cur_num_bits = 1,
                    zero_runlength = - 1 \<rparr>)"
    unfolding Let_def h by blast+
  have c: "BitStream_Write (int 2) (5 mod 2 ^ 2) (BitStream_Write (int 2 + 1) (2 ^ 2) [])
         = [False, False, True, True, False]"
    unfolding t(2) b r2 by simp
  have f: "FlushPendingZeros ?s =
         Inr (UintStream_new\<lparr> bit_stream := [False, False, True, True, False],
                num_pending_zeros := 0 \<rparr>)"
    using t(1) unfolding e c by (simp add: UintStream_new_def)
  have "unat (5::u32) < 2 ^ 31" unfolding u by simp
  with t(3) have rd: "read_all 0 5
        \<lparr> bit_reader = [False, False, True, True, False] @ [True, True],
          prev_num_bits = 1, cur_num_bits = 0, zero_runlength = - 1 \<rparr>
      = Some ([0, 0, 0, 0, 0],
              \<lparr> bit_reader = [True, True], prev_num_bits = 0, cur_num_bits = 1,
                zero_runlength = - 1 \<rparr>)"
    unfolding c u r5 by blast
  from 1 2 h f rd show ?thesis by blast
qed

section \<open>Widths across the boundary of two flushes\<close>

lemma encode_one_chain:
  assumes "vs \<noteq> []"
  shows "\<exists>cs t. map call_value cs = vs \<and> chained cs
     \<and> call_prev (hd cs) = call_cur (hd cs)
     \<and> WriteCode_all cs
           (UintStream_new\<lparr> bit_stream := write_prelude (call_cur (hd cs)) [],
              started := True \<rparr>) = Inr t
     \<and> encode vs =
         Inr (BitStream_Code (BitStream_Flush
                (bit_stream t @ final_code (num_pending_zeros t))))"
proof -
  from encode_state_chain [OF assms]
  obtain s' cs where c: "encode_state vs = Inr s'" "flushed s'"
      "bit_stream s' = BitStream_Flush (prelude_code (call_cur (hd cs)) @ calls_bits 0 cs
           @ final_code (calls_pending 0 cs))"
      "chained cs" "list_all call_ok cs" "call_prev (hd cs) = call_cur (hd cs)"
      "map call_value cs = vs"
    by blast
  let ?s0 = "UintStream_new\<lparr> bit_stream := write_prelude (call_cur (hd cs)) [],
              started := True \<rparr>"
  define t where "t = ?s0\<lparr> bit_stream := bit_stream ?s0 @ calls_bits (num_pending_zeros ?s0) cs,
              num_pending_zeros := calls_pending (num_pending_zeros ?s0) cs \<rparr>"
  have w: "WriteCode_all cs ?s0 = Inr t"
    unfolding t_def using WriteCode_all_eq [OF c(5), of ?s0] .
  have b: "bit_stream t = prelude_code (call_cur (hd cs)) @ calls_bits 0 cs"
      "num_pending_zeros t = calls_pending 0 cs"
    by (simp_all add: t_def UintStream_new_def write_prelude_eq)
  have "encode vs = Inr (BitStream_Code (bit_stream s'))"
    by (simp add: encode_def c(1,2) UintStream_Code_def)
  then have "encode vs =
         Inr (BitStream_Code (BitStream_Flush
                (bit_stream t @ final_code (num_pending_zeros t))))"
    unfolding c(3) b by simp
  then show ?thesis using c(4,6,7) w by blast
qed

lemma Write_at_63:
  assumes len: "length (buffer s) = 63"
    and st: "started s \<or> most_recent_num_bits s = 0" and mr: "most_recent_num_bits s \<le> 32"
    and n: "0 < n" "n \<le> 32 + length ws"
  shows "\<exists>s1. UintStream_Write v s = Inr s1
     \<and> FlushSome 32 (s\<lparr> buffer := buffer s @ [v] \<rparr>) = Inr s1
     \<and> buffer s1 = drop 32 (buffer s @ [v])
     \<and> call_prev (hd (FlushSome_calls n (s1\<lparr> buffer := buffer s1 @ ws \<rparr>)))
           = call_cur (last (FlushSome_calls 32 (s\<lparr> buffer := buffer s @ [v] \<rparr>)))
     \<and> call_cur (hd (FlushSome_calls n (s1\<lparr> buffer := buffer s1 @ ws \<rparr>)))
           = call_next (last (FlushSome_calls 32 (s\<lparr> buffer := buffer s @ [v] \<rparr>)))
     \<and> ComputeNumBits (s1\<lparr> buffer := buffer s1 @ ws \<rparr>) ! 0
           = ComputeNumBits (s\<lparr> buffer := buffer s @ [v] \<rparr>) ! 32"
proof -
  let ?s0 = "s\<lparr> buffer := buffer s @ [v] \<rparr>"
  have len0: "length (buffer ?s0) = 64" using len by simp
  have st0: "started ?s0 \<or> most_recent_num_bits ?s0 \<le> 1" "most_recent_num_bits ?s0 \<le> 33"
    using st mr by auto
  have n32: "(0::nat) < 32" "32 \<le> length (buffer ?s0)" "32 < length (buffer ?s0)"
    using len0 by simp_all
  define s1 where "s1 = ?s0\<lparr> buffer := drop 32 (buffer ?s0),
              most_recent_num_bits := ComputeNumBits ?s0 ! (32 - 1),
              bit_stream := bit_stream ?s0
                 @ (if started ?s0 then [] else prelude_code (ComputeNumBits ?s0 ! 0))
                 @ calls_bits (num_pending_zeros ?s0) (FlushSome_calls 32 ?s0),
              started := True,
              num_pending_zeros :=
                calls_pending (num_pending_zeros ?s0) (FlushSome_calls 32 ?s0) \<rparr>"
  have f: "FlushSome 32 ?s0 = Inr s1"
    unfolding s1_def using FlushSome_eq [OF st0 n32(1,2)] .
  have w: "UintStream_Write v s = Inr s1"
    using f len by (simp add: UintStream_Write_def)
  have s1: "buffer s1 = drop 32 (buffer ?s0)" "most_recent_num_bits s1 = ComputeNumBits ?s0 ! 31"
      "started s1"
    by (simp_all add: s1_def)
  let ?s2 = "s1\<lparr> buffer := buffer s1 @ ws \<rparr>"
  have l: "call_cur (last (FlushSome_calls 32 ?s0)) = ComputeNumBits ?s0 ! 31"
      "call_next (last (FlushSome_calls 32 ?s0)) = ComputeNumBits ?s0 ! 32"
    using last_FlushSome_calls [OF n32(1,2)] n32(3) by simp_all
  have n2: "n \<le> length (buffer ?s2)" using n(2) s1(1) len by simp
  have h: "call_prev (hd (FlushSome_calls n ?s2)) = most_recent_num_bits ?s2"
      "call_cur (hd (FlushSome_calls n ?s2)) = ComputeNumBits ?s2 ! 0"
    using hd_FlushSome_calls [OF n(1) n2] s1(3) by simp_all
  have k: "ComputeNumBits ?s2 ! 0 = ComputeNumBits ?s0 ! 32"
    using widths_stable [OF len0 st0(2), of ws] s1(1,2)
    by (simp add: ComputeNumBits_widths)
  show ?thesis
    using w f s1(1) h l k s1(2) by (intro exI [of _ s1]) simp
qed

text \<open>Claim C10.  First, for every nonempty input the bits of the whole encoded stream,
  however many partial flushes \<open>Write\<close> made on the way, are the prelude followed by what
  \<open>WriteCode\<close> writes when run once for each value, in order, over one sequence of calls in
  which the next width of each call (the width its width-delta code announces) is the
  current width of the call after it, and the current width of each call is the previous
  width of the call after it; what \<open>Flush\<close> appends is the code of the zeros still pending.
  Second, at each partial flush: when \<open>Write\<close> brings the buffer to 64 values it flushes 32
  and keeps 32, and in whatever later flush the first value kept is encoded, whatever has
  been written in between, the first call of that flush has as its current width the next
  width of the last call of the partial flush, as its previous width the current width of
  that call, and the width \<open>ComputeNumBits\<close> computes for the value again is the width it
  computed for it before.  The calls that \<open>FlushSome\<close> makes are \<open>FlushSome_calls\<close>.\<close>

theorem widths_agree_across_flushes:
  assumes "vs \<noteq> []"
    and "length (buffer s) = 63"
    and "started s \<or> most_recent_num_bits s = 0" and "most_recent_num_bits s \<le> 32"
    and "0 < n" and "n \<le> 32 + length ws"
  shows "(\<exists>cs t. map call_value cs = vs \<and> chained cs
         \<and> call_prev (hd cs) = call_cur (hd cs)
         \<and> WriteCode_all cs
               (UintStream_new\<lparr> bit_stream := write_prelude (call_cur (hd cs)) [],
                  started := True \<rparr>) = Inr t
         \<and> encode vs =
             Inr (BitStream_Code (BitStream_Flush
                    (bit_stream t @ final_code (num_pending_zeros t)))))
     \<and> (\<exists>s1. UintStream_Write v s = Inr s1
         \<and> FlushSome 32 (s\<lparr> buffer := buffer s @ [v] \<rparr>) = Inr s1
         \<and> buffer s1 = drop 32 (buffer s @ [v])
         \<and> FlushSome 32 (s\<lparr> buffer := buffer s @ [v] \<rparr>) =
             (case WriteCode_all (FlushSome_calls 32 (s\<lparr> buffer := buffer s @ [v] \<rparr>))
                     (if started s then s\<lparr> buffer := buffer s @ [v] \<rparr>
                      else s\<lparr> buffer := buffer s @ [v],
                              bit_stream :=
                                write_prelude
                                  (ComputeNumBits (s\<lparr> buffer := buffer s @ [v] \<rparr>) ! 0)
                                  (bit_stream s),
                              started := True,
                              most_recent_num_bits :=
                                ComputeNumBits (s\<lparr> buffer := buffer s @ [v] \<rparr>) ! 0 \<rparr>) of
                Inl e \<Rightarrow> Inl e
              | Inr s2 \<Rightarrow>
                  Inr (s2\<lparr> most_recent_num_bits :=
                             ComputeNumBits (s\<lparr> buffer := buffer s @ [v] \<rparr>) ! (32 - 1),
                           buffer := drop 32 (buffer s @ [v]) \<rparr>))
         \<and> FlushSome n (s1\<lparr> buffer := buffer s1 @ ws \<rparr>) =
             (case WriteCode_all (FlushSome_calls n (s1\<lparr> buffer := buffer s1 @ ws \<rparr>))
                     (s1\<lparr> buffer := buffer s1 @ ws \<rparr>) of
                Inl e \<Rightarrow> Inl e
              | Inr s2 \<Rightarrow>
                  Inr (s2\<lparr> most_recent_num_bits :=
                             ComputeNumBits (s1\<lparr> buffer := buffer s1 @ ws \<rparr>) ! (n - 1),
                           buffer := drop n (buffer s1 @ ws) \<rparr>))
         \<and> call_prev (hd (FlushSome_calls n (s1\<lparr> buffer := buffer s1 @ ws \<rparr>)))
               = call_cur (last (FlushSome_calls 32 (s\<lparr> buffer := buffer s @ [v] \<rparr>)))
         \<and> call_cur (hd (FlushSome_calls n (s1\<lparr> buffer := buffer s1 @ ws \<rparr>)))
               = call_next (last (FlushSome_calls 32 (s\<lparr> buffer := buffer s @ [v] \<rparr>)))
         \<and> ComputeNumBits (s1\<lparr> buffer := buffer s1 @ ws \<rparr>) ! 0
               = ComputeNumBits (s\<lparr> buffer := buffer s @ [v] \<rparr>) ! 32)"
proof -
  let ?s0 = "s\<lparr> buffer := buffer s @ [v] \<rparr>"
  from Write_at_63 [OF assms(2-6), of v]
  obtain s1 where s1: "UintStream_Write v s = Inr s1" "FlushSome 32 ?s0 = Inr s1"
      "buffer s1 = drop 32 (buffer s @ [v])"
      "call_prev (hd (FlushSome_calls n (s1\<lparr> buffer := buffer s1 @ ws \<rparr>)))
           = call_cur (last (FlushSome_calls 32 ?s0))"
      "call_cur (hd (FlushSome_calls n (s1\<lparr> buffer := buffer s1 @ ws \<rparr>)))
           = call_next (last (FlushSome_calls 32 ?s0))"
      "ComputeNumBits (s1\<lparr> buffer := buffer s1 @ ws \<rparr>) ! 0 = ComputeNumBits ?s0 ! 32"
    by blast
  let ?s2 = "s1\<lparr> buffer := buffer s1 @ ws \<rparr>"
  have a: "(0::nat) < 32" "32 \<le> length (buffer ?s0)" using assms(2) by simp_all
  have c0: "FlushSome 32 ?s0 =
             (case WriteCode_all (FlushSome_calls 32 ?s0)
                     (if started s then ?s0
                      else s\<lparr> buffer := buffer s @ [v],
                              bit_stream := write_prelude (ComputeNumBits ?s0 ! 0) (bit_stream s),
                              started := True,
                              most_recent_num_bits := ComputeNumBits ?s0 ! 0 \<rparr>) of
                Inl e \<Rightarrow> Inl e
              | Inr s2 \<Rightarrow>
                  Inr (s2\<lparr> most_recent_num_bits := ComputeNumBits ?s0 ! (32 - 1),
                           buffer := drop 32 (buffer s @ [v]) \<rparr>))"
    using FlushSome_WriteCode_all [OF a] by (simp cong: sum.case_cong)
  have st1: "started s1"
  proof -
    have "started ?s0 \<or> most_recent_num_bits ?s0 \<le> 1" "most_recent_num_bits ?s0 \<le> 33"
      using assms(3,4) by auto
    from FlushSome_eq [OF this a] s1(2) show ?thesis by auto
  qed
  have n2: "n \<le> length (buffer ?s2)" using assms(6,2) s1(3) by simp
  have c2: "FlushSome n ?s2 =
             (case WriteCode_all (FlushSome_calls n ?s2) ?s2 of
                Inl e \<Rightarrow> Inl e
              | Inr s2 \<Rightarrow>
                  Inr (s2\<lparr> most_recent_num_bits := ComputeNumBits ?s2 ! (n - 1),
                           buffer := drop n (buffer s1 @ ws) \<rparr>))"
    using FlushSome_WriteCode_all [OF assms(5) n2] st1 by (simp cong: sum.case_cong)
  have loc: "\<exists>s1. UintStream_Write v s = Inr s1
         \<and> FlushSome 32 ?s0 = Inr s1
         \<and> buffer s1 = drop 32 (buffer s @ [v])
         \<and> FlushSome 32 ?s0 =
             (case WriteCode_all (FlushSome_calls 32 ?s0)
                     (if started s then ?s0
                      else s\<lparr> buffer := buffer s @ [v],
                              bit_stream := write_prelude (ComputeNumBits ?s0 ! 0) (bit_stream s),
                              started := True,
                              most_recent_num_bits := ComputeNumBits ?s0 ! 0 \<rparr>) of
                Inl e \<Rightarrow> Inl e
              | Inr s2 \<Rightarrow>
                  Inr (s2\<lparr> most_recent_num_bits := ComputeNumBits ?s0 ! (32 - 1),
                           buffer := drop 32 (buffer s @ [v]) \<rparr>))
         \<and> FlushSome n (s1\<lparr> buffer := buffer s1 @ ws \<rparr>) =
             (case WriteCode_all (FlushSome_calls n (s1\<lparr> buffer := buffer s1 @ ws \<rparr>))
                     (s1\<lparr> buffer := buffer s1 @ ws \<rparr>) of
                Inl e \<Rightarrow> Inl e
              | Inr s2 \<Rightarrow>
                  Inr (s2\<lparr> most_recent_num_bits :=
                             ComputeNumBits (s1\<lparr> buffer := buffer s1 @ ws \<rparr>) ! (n - 1),
                           buffer := drop n (buffer s1 @ ws) \<rparr>))
         \<and> call_prev (hd (FlushSome_calls n (s1\<lparr> buffer := buffer s1 @ ws \<rparr>)))
               = call_cur (last (FlushSome_calls 32 ?s0))
         \<and> call_cur (hd (FlushSome_calls n (s1\<lparr> buffer := buffer s1 @ ws \<rparr>)))
               = call_next (last (FlushSome_calls 32 ?s0))
         \<and> ComputeNumBits (s1\<lparr> buffer := buffer s1 @ ws \<rparr>) ! 0 = ComputeNumBits ?s0 ! 32"
    using s1 c0 c2 by (intro exI [of _ s1] conjI)
  from encode_one_chain [OF assms(1)] loc show ?thesis by (rule conjI)
qed

theorem widths_agree_across_flushes_witness:
  "replicate 32 0 @ [5] @ replicate 31 0 @ [9] \<noteq> ([] :: u32 list)
   \<and> length (buffer (UintStream_new\<lparr> buffer := replicate 32 0 @ [5] @ replicate 30 0 \<rparr>)) = 63
   \<and> (started (UintStream_new\<lparr> buffer := replicate 32 0 @ [5] @ replicate 30 0 \<rparr>)
        \<or> most_recent_num_bits
             (UintStream_new\<lparr> buffer := replicate 32 0 @ [5] @ replicate 30 0 \<rparr>) = 0)
   \<and> most_recent_num_bits
         (UintStream_new\<lparr> buffer := replicate 32 0 @ [5] @ replicate 30 0 \<rparr>) \<le> 32
   \<and> (0::nat) < 1 \<and> (1::nat) \<le> 32 + length [9::u32]
   \<and> UintStream_Write 0 (UintStream_new\<lparr> buffer := replicate 32 0 @ [5] @ replicate 30 0 \<rparr>)
       = Inr \<lparr> buffer = 5 # replicate 31 0, most_recent_num_bits = 2,
               bit_stream =
                 [False, False, False, False, False, False, False, False, False,
                  True, False, True, True, True, True, True, False, True, True,
                  False, False],
               started = True, flushed = False, num_pending_zeros = 0 \<rparr>
   \<and> last (FlushSome_calls 32
         (UintStream_new\<lparr> buffer := (replicate 32 0 @ [5] @ replicate 30 0) @ [0] \<rparr>))
       = (1, 2, 3, 0)
   \<and> hd (FlushSome_calls 1
         \<lparr> buffer = (5 # replicate 31 0) @ [9], most_recent_num_bits = 2,
           bit_stream =
             [False, False, False, False, False, False, False, False, False,
              True, False, True, True, True, True, True, False, True, True,
              False, False],
           started = True, flushed = False, num_pending_zeros = 0 \<rparr>)
       = (2, 3, 2, 5)
   \<and> (\<exists>cs t. map call_value cs = replicate 32 0 @ [5] @ replicate 31 0 @ [9] \<and> chained cs
         \<and> call_prev (hd cs) = call_cur (hd cs)
         \<and> WriteCode_all cs
               (UintStream_new\<lparr> bit_stream := write_prelude (call_cur (hd cs)) [],
                  started := True \<rparr>) = Inr t
         \<and> encode (replicate 32 0 @ [5] @ replicate 31 0 @ [9]) =
             Inr (BitStream_Code (BitStream_Flush
                    (bit_stream t @ final_code (num_pending_zeros t)))))"
proof -
  let ?vs = "replicate 32 0 @ [5] @ replicate 31 0 @ [9] :: u32 list"
  let ?s = "UintStream_new\<lparr> buffer := replicate 32 0 @ [5] @ replicate 30 0 \<rparr>"
  have 1: "?vs \<noteq> []" by simp
  have 2: "length (buffer ?s) = 63" by simp
  have 3: "started ?s \<or> most_recent_num_bits ?s = 0" by (simp add: UintStream_new_def)
  have 4: "most_recent_num_bits ?s \<le> 32" by (simp add: UintStream_new_def)
  have 5: "(0::nat) < 1" by simp
  have 6: "(1::nat) \<le> 32 + length [9::u32]" by simp
  have w: "UintStream_Write 0 ?s
       = Inr \<lparr> buffer = 5 # replicate 31 0, most_recent_num_bits = 2,
               bit_stream =
                 [False, False, False, False, False, False, False, False, False,
                  True, False, True, True, True, True, True, False, True, True,
                  False, False],
               started = True, flushed = False, num_pending_zeros = 0 \<rparr>"
    by code_simp
  have l: "last (FlushSome_calls 32
         (UintStream_new\<lparr> buffer := (replicate 32 0 @ [5] @ replicate 30 0) @ [0] \<rparr>))
       = (1, 2, 3, 0)"
    by code_simp
  have h: "hd (FlushSome_calls 1
         \<lparr> buffer = (5 # replicate 31 0) @ [9], most_recent_num_bits = 2,
           bit_stream =
             [False, False, False, False, False, False, False, False, False,
              True, False, True, True, True, True, True, False, True, True,
              False, False],
           started = True, flushed = False, num_pending_zeros = 0 \<rparr>)
       = (2, 3, 2, 5)"
    by code_simp
  from widths_agree_across_flushes [OF 1 2 3 4 5 6, of 0, THEN conjunct1] 1 2 3 4 5 6 w l h
  show ?thesis by blast
qed

section \<open>Worked examples\<close>

text \<open>Claim C9, as amended.  Encoding the single value 5 writes exactly eight bits: the prelude
  3 in five bits, the one-bit code for an unchanged width, and the low two bits of 5 (the
  top bit is elided).  Packed with the first bit written as bit 0, the single output byte
  is \<open>0b01000011 = 0x43\<close>.\<close>

theorem encode_5:
  "map_sum id bit_stream (encode_state [5]) =
     Inr ([True, True, False, False, False] @ [False] @ [True, False])
   \<and> encode [5] = Inr [0x43]"
  by code_simp

text \<open>The byte is not \<open>0x0B\<close>, the value claim C9 gives.\<close>

theorem encode_5_not_0x0B: "encode [5] \<noteq> Inr [0x0B]"
  by code_simp

text \<open>Claim C5, as amended.  For the input 1, 0, 1 the planner leaves the widths at 1, 0, 1: the
  slope rule allows a step of one.  The middle symbol has width zero and writes no value
  bit; it is carried by a zero-run code of run length one (a single 1 bit) written before
  the third symbol.  The stream is the prelude 1, the code for a width going down, the
  zero-run code, the code for an unchanged width, and seven bits of padding.\<close>

theorem encode_1_0_1:
  "ComputeNumBits (UintStream_new\<lparr> buffer := [1, 0, 1] \<rparr>) = [1, 0, 1]
   \<and> map_sum id bit_stream (encode_state [1, 0, 1]) =
       Inr ([True, False, False, False, False] @ [True, False] @ [True] @ [False]
            @ replicate 7 False)
   \<and> encode [1, 0, 1] = Inr [0xA1, 0x00]"
  by code_simp

text \<open>The planned widths are not 1, 1, 1, the sequence claim C5 gives.\<close>

theorem widths_1_0_1_not_all_one:
  "ComputeNumBits (UintStream_new\<lparr> buffer := [1, 0, 1] \<rparr>) \<noteq> [1, 1, 1]"
  by code_simp

end
